theory Spec2Isabelle
  imports Main "HOL-Library.AList" "HOL-Library.Multiset"
begin

section \<open>Identity and addressing (graph.go, lines 14-48)\<close>

text \<open>
  Go strings are byte sequences and are modelled as \<open>string\<close> (a list of 8-bit
  characters). \<open>types.UID\<close>, \<open>ObjectReferenceKey\<close>, \<open>ObjectLabelSelectorKey\<close> and
  \<open>Relationship\<close> are all declared as \<open>string\<close> in the source.
\<close>

type_synonym UID = string
type_synonym ObjectLabelSelectorKey = string
type_synonym ObjectReferenceKey = string
type_synonym Relationship = string
type_synonym LabelSet = "(string \<times> string) list"

text \<open>
  \<open>labels.Selector\<close> is an interface of the Kubernetes library. The source calls two of
  its methods: \<open>String\<close> (through the \<open>%s\<close> verb of \<open>fmt.Sprintf\<close>) and \<open>Matches\<close>. An
  interface value is modelled by the record of these two methods.
\<close>

record Selector =
  String :: string
  Matches :: "LabelSet \<Rightarrow> bool"

record ObjectLabelSelector =
  selGroup :: string
  selKind :: string
  selNamespace :: string
  selSelector :: Selector

record ObjectReference =
  refGroup :: string
  refKind :: string
  refNamespace :: string
  refName :: string

text \<open>The separator of both key formats: the format string is \<open>"%s\\%s\\%s\\%s"\<close>, an
  interpreted Go literal in which \<open>\\\<close> denotes one backslash (byte 0x5C).\<close>

definition backslash :: char where
  "backslash = CHR 0x5C"

definition ObjectLabelSelector_Key :: "ObjectLabelSelector \<Rightarrow> ObjectLabelSelectorKey" where
  "ObjectLabelSelector_Key ols =
     selGroup ols @ [backslash] @ selKind ols @ [backslash] @ selNamespace ols @ [backslash]
       @ String (selSelector ols)"

definition ObjectReference_Key :: "ObjectReference \<Rightarrow> ObjectReferenceKey" where
  "ObjectReference_Key ref =
     refGroup ref @ [backslash] @ refKind ref @ [backslash] @ refNamespace ref @ [backslash]
       @ refName ref"

section \<open>Go maps and their iteration order\<close>

text \<open>
  A Go map that the code iterates over is modelled as an association list with distinct
  keys: lookup is \<open>map_of\<close>, assignment \<open>m[k] = v\<close> is \<open>AList.update k v m\<close>. A
  \<open>map[K]struct{}\<close> (a set) is the list of its keys.

  The order in which \<open>range\<close> visits the entries of a Go map is unspecified. It is made
  a parameter of the model: an \<open>iteration\<close> chooses, for every map size \<open>n\<close>, a permutation
  of the positions \<open>0..<n\<close>, and \<open>rangeOver\<close> visits the entries in that order. Every
  theorem below holds for every such choice.
\<close>

typedef iteration = "{f :: nat \<Rightarrow> nat list. \<forall>n. mset (f n) = mset [0..<n]}"
  by (rule exI [of _ "\<lambda>n. [0..<n]"]) simp

setup_lifting type_definition_iteration

lift_definition visit :: "iteration \<Rightarrow> nat \<Rightarrow> nat list" is "\<lambda>f. f" .

lift_definition ascending :: iteration is "\<lambda>n. [0..<n]"
  by simp

lift_definition descending :: iteration is "\<lambda>n. rev [0..<n]"
  by simp

definition rangeOver :: "iteration \<Rightarrow> 'a list \<Rightarrow> 'a list" where
  "rangeOver it m = map (\<lambda>i. m ! i) (visit it (length m))"

section \<open>Relationships (graph.go, lines 56-140)\<close>

type_synonym RelationshipSet = "Relationship list"

text \<open>Modelled from the spec: the two relationship labels \<open>RelationshipControllerRef\<close> and
  \<open>RelationshipOwnerRef\<close> are constants declared outside graph.go; the specification gives
  their values as "ControllerRef" and "OwnerRef".\<close>

definition RelationshipControllerRef :: Relationship where
  "RelationshipControllerRef = ''ControllerRef''"

definition RelationshipOwnerRef :: Relationship where
  "RelationshipOwnerRef = ''OwnerRef''"

record RelationshipMap =
  DependenciesByLabelSelector :: "(ObjectLabelSelectorKey \<times> RelationshipSet) list"
  DependenciesByRef :: "(ObjectReferenceKey \<times> RelationshipSet) list"
  DependenciesByUID :: "(UID \<times> RelationshipSet) list"
  DependentsByLabelSelector :: "(ObjectLabelSelectorKey \<times> RelationshipSet) list"
  DependentsByRef :: "(ObjectReferenceKey \<times> RelationshipSet) list"
  DependentsByUID :: "(UID \<times> RelationshipSet) list"
  ObjectLabelSelectors :: "(ObjectLabelSelectorKey \<times> ObjectLabelSelector) list"

section \<open>Input objects and nodes (graph.go, lines 142-177)\<close>

text \<open>
  An input object is an \<open>unstructured.Unstructured\<close> of the Kubernetes library. It is
  modelled by the values of the accessors that \<open>ResolveDependents\<close> calls on it;
  \<open>UnstructuredContent\<close> stands for the rest of the payload, which only the per-kind
  extractors read. The \<open>Controller\<close> field of an owner reference is a \<open>*bool\<close>: \<open>None\<close>
  is the nil pointer.
\<close>

record OwnerReference =
  RefUID :: UID
  Controller :: "bool option"

record 'c Unstructured =
  GetUID :: UID
  GvkGroup :: string
  GvkKind :: string
  GetNamespace :: string
  GetName :: string
  GetLabels :: LabelSet
  GetOwnerReferences :: "OwnerReference list"
  UnstructuredContent :: 'c

record 'c Node =
  Object :: "'c Unstructured"
  UID :: UID
  Group :: string
  Kind :: string
  Namespace :: string
  Name :: string
  OwnerReferences :: "OwnerReference list"
  Dependents :: "(UID \<times> RelationshipSet) list"

definition AddDependent :: "UID \<Rightarrow> Relationship \<Rightarrow> 'c Node \<Rightarrow> 'c Node" where
  "AddDependent uid r n =
     (let deps = (if map_of (Dependents n) uid = None
                  then AList.update uid [] (Dependents n) else Dependents n)
      in n\<lparr>Dependents := AList.update uid (List.insert r (the (map_of deps uid))) deps\<rparr>)"

definition GetObjectReferenceKey :: "'c Node \<Rightarrow> ObjectReferenceKey" where
  "GetObjectReferenceKey n =
     ObjectReference_Key \<lparr>refGroup = Group n, refKind = Kind n,
                          refNamespace = Namespace n, refName = Name n\<rparr>"

section \<open>ResolveDependents (graph.go, lines 208-458)\<close>

subsection \<open>The global maps (lines 212-244)\<close>

text \<open>
  Every iteration of the first loop allocates a fresh \<open>Node\<close> and stores its address in
  the global maps. Nodes are shared through these pointers and mutated in place, so the
  model keeps an explicit store: \<open>nodes\<close> is the list of all allocated nodes and a
  pointer is a position in it (the node of \<open>objects[ix]\<close> is at position \<open>ix\<close>).
\<close>

record 'c Globals =
  globalMapByUID :: "(UID \<times> nat) list"
  globalMapByKey :: "(ObjectReferenceKey \<times> nat) list"
  nodes :: "'c Node list"

definition newNode :: "'c Unstructured \<Rightarrow> 'c Node" where
  "newNode obj =
     \<lparr>Object = obj, UID = GetUID obj, Group = GvkGroup obj, Kind = GvkKind obj,
      Namespace = GetNamespace obj, Name = GetName obj,
      OwnerReferences = GetOwnerReferences obj, Dependents = []\<rparr>"

definition indexObject :: "'c Globals \<Rightarrow> 'c Unstructured \<Rightarrow> 'c Globals" where
  "indexObject g obj =
     (let node = newNode obj;
          ptr = length (nodes g);
          byUID = AList.update (UID node) ptr (globalMapByUID g);
          byKey = AList.update (GetObjectReferenceKey node) ptr (globalMapByKey g);
          byUID' =
            (if Group node = [] \<and> Kind node = ''Node''
             then (let byName = AList.update (Name node) ptr byUID
                   in case map_of (GetLabels obj) ''kubernetes.io/hostname'' of
                        Some hostname \<Rightarrow> AList.update hostname ptr byName
                      | None \<Rightarrow> byName)
             else byUID)
      in \<lparr>globalMapByUID = byUID', globalMapByKey = byKey, nodes = nodes g @ [node]\<rparr>)"

definition buildGlobalMaps :: "'c Unstructured list \<Rightarrow> 'c Globals" where
  "buildGlobalMaps objects =
     foldl indexObject \<lparr>globalMapByUID = [], globalMapByKey = [], nodes = []\<rparr> objects"

subsection \<open>Adding edges to nodes of the store\<close>

definition AddDependentAt :: "nat \<Rightarrow> UID \<Rightarrow> Relationship \<Rightarrow> 'c Node list \<Rightarrow> 'c Node list" where
  "AddDependentAt ptr uid r h = h[ptr := AddDependent uid r (h ! ptr)]"

subsection \<open>resolveSelectorToNodes and updateRelationships (lines 246-304)\<close>

definition resolveSelectorToNodes ::
    "iteration \<Rightarrow> (UID \<times> nat) list \<Rightarrow> 'c Node list \<Rightarrow> ObjectLabelSelector \<Rightarrow> nat list" where
  "resolveSelectorToNodes it byUID h ols =
     map snd (filter (\<lambda>(uid, n).
         Group (h ! n) = selGroup ols \<and> Kind (h ! n) = selKind ols
           \<and> Namespace (h ! n) = selNamespace ols
           \<and> Matches (selSelector ols) (GetLabels (Object (h ! n))))
       (rangeOver it byUID))"

text \<open>The two inner loops \<open>for r := range rset\<close>: \<open>n.AddDependent(node.UID, r)\<close> for a
  dependency declaration and \<open>node.AddDependent(n.UID, r)\<close> for a dependent declaration.\<close>

definition addDependency :: "iteration \<Rightarrow> nat \<Rightarrow> nat \<Rightarrow> RelationshipSet \<Rightarrow> 'c Node list \<Rightarrow> 'c Node list" where
  "addDependency it node n rset h =
     foldl (\<lambda>h r. AddDependentAt n (UID (h ! node)) r h) h (rangeOver it rset)"

definition addDependent :: "iteration \<Rightarrow> nat \<Rightarrow> nat \<Rightarrow> RelationshipSet \<Rightarrow> 'c Node list \<Rightarrow> 'c Node list" where
  "addDependent it node n rset h =
     foldl (\<lambda>h r. AddDependentAt node (UID (h ! n)) r h) h (rangeOver it rset)"

definition updateRelationships ::
    "iteration \<Rightarrow> (UID \<times> nat) list \<Rightarrow> (ObjectReferenceKey \<times> nat) list \<Rightarrow> nat \<Rightarrow> RelationshipMap
      \<Rightarrow> 'c Node list \<Rightarrow> 'c Node list" where
  "updateRelationships it byUID byKey node rmap h0 =
     (let h1 = foldl (\<lambda>h (k, rset).
                  case map_of byKey k of
                    Some n \<Rightarrow> addDependency it node n rset h
                  | None \<Rightarrow> h) h0 (rangeOver it (DependenciesByRef rmap));
          h2 = foldl (\<lambda>h (k, rset).
                  case map_of byKey k of
                    Some n \<Rightarrow> addDependent it node n rset h
                  | None \<Rightarrow> h) h1 (rangeOver it (DependentsByRef rmap));
          h3 = foldl (\<lambda>h (k, rset).
                  case map_of (ObjectLabelSelectors rmap) k of
                    Some ols \<Rightarrow> foldl (\<lambda>h n. addDependency it node n rset h) h
                                  (resolveSelectorToNodes it byUID h ols)
                  | None \<Rightarrow> h) h2 (rangeOver it (DependenciesByLabelSelector rmap));
          h4 = foldl (\<lambda>h (k, rset).
                  case map_of (ObjectLabelSelectors rmap) k of
                    Some ols \<Rightarrow> foldl (\<lambda>h n. addDependent it node n rset h) h
                                  (resolveSelectorToNodes it byUID h ols)
                  | None \<Rightarrow> h) h3 (rangeOver it (DependentsByLabelSelector rmap));
          h5 = foldl (\<lambda>h (uid, rset).
                  case map_of byUID uid of
                    Some n \<Rightarrow> addDependency it node n rset h
                  | None \<Rightarrow> h) h4 (rangeOver it (DependenciesByUID rmap));
          h6 = foldl (\<lambda>h (uid, rset).
                  case map_of byUID uid of
                    Some n \<Rightarrow> addDependent it node n rset h
                  | None \<Rightarrow> h) h5 (rangeOver it (DependentsByUID rmap))
      in h6)"

subsection \<open>Owner references (lines 306-316)\<close>

definition addOwnerReference :: "(UID \<times> nat) list \<Rightarrow> nat \<Rightarrow> 'c Node list \<Rightarrow> OwnerReference \<Rightarrow> 'c Node list" where
  "addOwnerReference byUID node h ref =
     (case map_of byUID (RefUID ref) of
        Some n \<Rightarrow>
          (let h' = (if Controller ref \<noteq> None \<and> the (Controller ref)
                     then AddDependentAt n (UID (h ! node)) RelationshipControllerRef h
                     else h)
           in AddDependentAt n (UID (h' ! node)) RelationshipOwnerRef h')
      | None \<Rightarrow> h)"

definition populateOwnerReferences :: "iteration \<Rightarrow> (UID \<times> nat) list \<Rightarrow> 'c Node list \<Rightarrow> 'c Node list" where
  "populateOwnerReferences it byUID h0 =
     foldl (\<lambda>h (uid, node). foldl (addOwnerReference byUID node) h (OwnerReferences (h ! node)))
       h0 (rangeOver it byUID)"

subsection \<open>Dispatch to the per-kind extractors (lines 318-423)\<close>

text \<open>
  The thirteen functions \<open>getPersistentVolumeRelationships\<close>, ..., \<open>getRoleBindingRelationships\<close>
  are defined outside graph.go. They are a parameter of the model: \<open>getRelationships k node\<close>
  is the result of the extractor \<open>k\<close> on \<open>node\<close>, either an error message (\<open>Inl\<close>) or a
  relationship map (\<open>Inr\<close>). The \<open>switch\<close> that selects the extractor is \<open>dispatch\<close>.
\<close>

datatype Extractor =
    PersistentVolume | PersistentVolumeClaim | Pod | Service | ServiceAccount
  | MutatingWebhookConfiguration | ValidatingWebhookConfiguration | Event | Ingress
  | IngressClass | ClusterRole | ClusterRoleBinding | RoleBinding

definition dispatch :: "'c Node \<Rightarrow> Extractor option" where
  "dispatch node =
     (if Group node = [] \<and> Kind node = ''PersistentVolume'' then Some PersistentVolume
      else if Group node = [] \<and> Kind node = ''PersistentVolumeClaim'' then Some PersistentVolumeClaim
      else if Group node = [] \<and> Kind node = ''Pod'' then Some Pod
      else if Group node = [] \<and> Kind node = ''Service'' then Some Service
      else if Group node = [] \<and> Kind node = ''ServiceAccount'' then Some ServiceAccount
      else if Group node = ''admissionregistration.k8s.io''
                \<and> Kind node = ''MutatingWebhookConfiguration''
        then Some MutatingWebhookConfiguration
      else if Group node = ''admissionregistration.k8s.io''
                \<and> Kind node = ''ValidatingWebhookConfiguration''
        then Some ValidatingWebhookConfiguration
      else if (Group node = ''events.k8s.io'' \<or> Group node = []) \<and> Kind node = ''Event''
        then Some Event
      else if (Group node = ''networking.k8s.io'' \<or> Group node = ''extensions'')
                \<and> Kind node = ''Ingress''
        then Some Ingress
      else if Group node = ''networking.k8s.io'' \<and> Kind node = ''IngressClass''
        then Some IngressClass
      else if Group node = ''rbac.authorization.k8s.io'' \<and> Kind node = ''ClusterRole''
        then Some ClusterRole
      else if Group node = ''rbac.authorization.k8s.io'' \<and> Kind node = ''ClusterRoleBinding''
        then Some ClusterRoleBinding
      else if Group node = ''rbac.authorization.k8s.io'' \<and> Kind node = ''RoleBinding''
        then Some RoleBinding
      else None)"

type_synonym 'c extractors = "Extractor \<Rightarrow> 'c Node \<Rightarrow> string + RelationshipMap"

definition populateRelationships ::
    "iteration \<Rightarrow> 'c extractors \<Rightarrow> (UID \<times> nat) list \<Rightarrow> (ObjectReferenceKey \<times> nat) list
      \<Rightarrow> 'c Node list \<Rightarrow> 'c Node list" where
  "populateRelationships it getRelationships byUID byKey h0 =
     foldl (\<lambda>h (uid, node).
         case dispatch (h ! node) of
           None \<Rightarrow> h
         | Some k \<Rightarrow>
             (case getRelationships k (h ! node) of
                Inl err \<Rightarrow> h
              | Inr rmap \<Rightarrow> updateRelationships it byUID byKey node rmap h))
       h0 (rangeOver it byUID)"

text \<open>The resolved graph: the global maps and the store after both passes.\<close>

definition resolveGraph :: "iteration \<Rightarrow> 'c extractors \<Rightarrow> 'c Unstructured list \<Rightarrow> 'c Globals" where
  "resolveGraph it getRelationships objects =
     (let g = buildGlobalMaps objects;
          h1 = populateOwnerReferences it (globalMapByUID g) (nodes g);
          h2 = populateRelationships it getRelationships (globalMapByUID g) (globalMapByKey g) h1
      in g\<lparr>nodes := h2\<rparr>)"

section \<open>Properties of the iteration order\<close>

lemma mset_visit: "mset (visit it n) = mset [0..<n]"
  by transfer simp

lemma set_visit: "set (visit it n) = {0..<n}"
  using mset_visit [of it n] by (metis mset_eq_setD set_upt)

lemma distinct_visit: "distinct (visit it n)"
  using mset_visit [of it n] by (metis distinct_upt mset_eq_imp_distinct_iff)

lemma mset_rangeOver: "mset (rangeOver it m) = mset m"
proof -
  have "mset (map (\<lambda>i. m ! i) (visit it (length m))) = image_mset (\<lambda>i. m ! i) (mset [0..<length m])"
    by (simp only: mset_map mset_visit)
  also have "\<dots> = mset (map (\<lambda>i. m ! i) [0..<length m])" by (simp only: mset_map)
  also have "\<dots> = mset m" by (simp add: map_nth)
  finally show ?thesis by (simp add: rangeOver_def)
qed

lemma set_rangeOver: "set (rangeOver it m) = set m"
  using mset_rangeOver [of it m] by (metis set_mset_mset)

lemma rangeOver_ascending: "rangeOver ascending m = m"
  by (simp add: rangeOver_def ascending.rep_eq visit.rep_eq map_nth)

lemma rangeOver_descending: "rangeOver descending m = rev m"
  by (simp add: rangeOver_def descending.rep_eq visit.rep_eq map_nth flip: rev_map)

section \<open>The traversal from the root (graph.go, lines 425-457)\<close>

text \<open>
  \<open>NodeMap\<close> is \<open>map[types.UID]*Node\<close>. A stored pointer may be nil (the value of
  \<open>globalMapByUID[dUID]\<close> for a key that is absent), so its values are \<open>nat option\<close>;
  \<open>lookupNode\<close> is the Go expression \<open>nodeMap[uid]\<close>, which is nil for an absent key
  as well. The set \<open>uidSet\<close> is only tested for membership and is a HOL set.

  The \<open>for\<close> loop of the traversal has no bound. It is the recursive function
  \<open>traverse\<close> on the loop state (\<open>nodeMap\<close>, \<open>uidQueue\<close>, \<open>uidSet\<close>), and its
  termination is proved for every state: the identifiers that can still be marked as
  visited (\<open>frontier\<close> minus \<open>uidSet\<close>) become fewer, or the queue becomes shorter.
\<close>

type_synonym NodeMap = "(UID \<times> nat option) list"

definition lookupNode :: "NodeMap \<Rightarrow> UID \<Rightarrow> nat option" where
  "lookupNode m uid = (case map_of m uid of Some p \<Rightarrow> p | None \<Rightarrow> None)"

definition pointers :: "(UID \<times> nat) list \<Rightarrow> NodeMap \<Rightarrow> nat set" where
  "pointers byUID nodeMap = snd ` set byUID \<union> {p. Some p \<in> snd ` set nodeMap}"

definition frontier :: "(UID \<times> nat) list \<Rightarrow> 'c Node list \<Rightarrow> NodeMap \<Rightarrow> UID list \<Rightarrow> UID set" where
  "frontier byUID h nodeMap queue =
     set queue \<union> (\<Union>p \<in> pointers byUID nodeMap. fst ` set (Dependents (h ! p)))"

function traverse ::
    "iteration \<Rightarrow> (UID \<times> nat) list \<Rightarrow> 'c Node list \<Rightarrow> NodeMap \<Rightarrow> UID list \<Rightarrow> UID set \<Rightarrow> NodeMap" where
  "traverse it byUID h nodeMap [] uidSet = nodeMap"
| "traverse it byUID h nodeMap (uid # rest) uidSet =
     (if uid \<in> uidSet then traverse it byUID h nodeMap rest uidSet
      else (case lookupNode nodeMap uid of
              Some node \<Rightarrow>
                (let dependents = map fst (rangeOver it (Dependents (h ! node)));
                     nodeMap' = foldl (\<lambda>m dUID. AList.update dUID (map_of byUID dUID) m)
                                  nodeMap dependents
                 in traverse it byUID h nodeMap' (rest @ dependents) (insert uid uidSet))
            | None \<Rightarrow> traverse it byUID h nodeMap (uid # rest) (insert uid uidSet)))"
  by pat_completeness auto


lemma finite_frontier: "finite (frontier byUID h nodeMap queue)"
proof -
  have "{p. Some p \<in> snd ` set nodeMap} \<subseteq> the ` (snd ` set nodeMap)"
    by force
  then have "finite {p. Some p \<in> snd ` set nodeMap}"
    by (rule finite_subset) simp
  then show ?thesis by (simp add: frontier_def pointers_def)
qed

lemma ran_update_subset:
  "snd ` set (AList.update k v m) \<subseteq> insert v (snd ` set m)"
  by (induction m) auto

lemma ran_includeDependents:
  "Some p \<in> snd ` set (foldl (\<lambda>m dUID. AList.update dUID (map_of byUID dUID) m) nodeMap ds)
    \<Longrightarrow> Some p \<in> snd ` set nodeMap \<or> p \<in> snd ` set byUID"
proof (induction ds arbitrary: nodeMap)
  case Nil
  then show ?case by simp
next
  case (Cons d ds)
  from Cons.prems
  have "Some p \<in> snd ` set (foldl (\<lambda>m dUID. AList.update dUID (map_of byUID dUID) m)
           (AList.update d (map_of byUID d) nodeMap) ds)"
    by simp
  from Cons.IH [OF this]
  have "Some p \<in> snd ` set (AList.update d (map_of byUID d) nodeMap) \<or> p \<in> snd ` set byUID" .
  then show ?case
  proof
    assume "Some p \<in> snd ` set (AList.update d (map_of byUID d) nodeMap)"
    with ran_update_subset [of d "map_of byUID d" nodeMap]
    have "Some p = map_of byUID d \<or> Some p \<in> snd ` set nodeMap" by blast
    then show ?thesis
    proof
      assume "Some p = map_of byUID d"
      then have "(d, p) \<in> set byUID" by (simp add: map_of_SomeD)
      then have "snd (d, p) \<in> snd ` set byUID" by (rule imageI)
      then show ?thesis by simp
    qed simp
  qed simp
qed

lemma lookupNode_ran:
  assumes "lookupNode nodeMap uid = Some p"
  shows "Some p \<in> snd ` set nodeMap"
proof -
  from assms have "map_of nodeMap uid = Some (Some p)"
    by (simp add: lookupNode_def split: option.splits)
  then have "(uid, Some p) \<in> set nodeMap" by (rule map_of_SomeD)
  then have "snd (uid, Some p) \<in> snd ` set nodeMap" by (rule imageI)
  then show ?thesis by simp
qed

lemma pointers_step:
  "pointers byUID (foldl (\<lambda>m dUID. AList.update dUID (map_of byUID dUID) m) nodeMap ds)
     \<subseteq> pointers byUID nodeMap"
proof
  fix p
  assume "p \<in> pointers byUID (foldl (\<lambda>m dUID. AList.update dUID (map_of byUID dUID) m) nodeMap ds)"
  then have "p \<in> snd ` set byUID
      \<or> Some p \<in> snd ` set (foldl (\<lambda>m dUID. AList.update dUID (map_of byUID dUID) m) nodeMap ds)"
    by (simp add: pointers_def)
  then have "p \<in> snd ` set byUID \<or> Some p \<in> snd ` set nodeMap"
    using ran_includeDependents [of p byUID nodeMap ds] by blast
  then show "p \<in> pointers byUID nodeMap" by (simp add: pointers_def)
qed

lemma frontier_step:
  assumes "lookupNode nodeMap uid = Some node"
  shows "frontier byUID h
           (foldl (\<lambda>m dUID. AList.update dUID (map_of byUID dUID) m) nodeMap
              (map fst (rangeOver it (Dependents (h ! node)))))
           (rest @ map fst (rangeOver it (Dependents (h ! node))))
         \<subseteq> frontier byUID h nodeMap (uid # rest)"
    (is "frontier byUID h ?m (rest @ ?ds) \<subseteq> ?F")
proof -
  have "node \<in> pointers byUID nodeMap"
    using lookupNode_ran [OF assms] by (simp add: pointers_def)
  then have a: "fst ` set (Dependents (h ! node)) \<subseteq> ?F"
    unfolding frontier_def by blast
  have "pointers byUID ?m \<subseteq> pointers byUID nodeMap"
    by (rule pointers_step)
  then have b: "(\<Union>p \<in> pointers byUID ?m. fst ` set (Dependents (h ! p))) \<subseteq> ?F"
    unfolding frontier_def by blast
  have c: "set rest \<subseteq> ?F"
    unfolding frontier_def by auto
  have eq: "frontier byUID h ?m (rest @ ?ds)
      = set rest \<union> fst ` set (Dependents (h ! node)) \<union> (\<Union>p \<in> pointers byUID ?m. fst ` set (Dependents (h ! p)))"
    unfolding frontier_def by (simp add: set_rangeOver)
  show ?thesis unfolding eq using a b c by (intro Un_least)
qed

lemma frontier_Cons:
  "frontier byUID h nodeMap (uid # rest) = insert uid (frontier byUID h nodeMap rest)"
  by (simp add: frontier_def)

lemma card_Diff_insert_less:
  assumes "finite F" "uid \<in> F" "uid \<notin> S" "F' \<subseteq> F"
  shows "card (F' - insert uid S) < card (F - S)"
proof -
  have "F' - insert uid S \<subseteq> (F - S) - {uid}" using assms(4) by auto
  then have "card (F' - insert uid S) \<le> card ((F - S) - {uid})"
    using assms(1) by (intro card_mono) auto
  also have "\<dots> < card (F - S)"
    using assms(1-3) by (intro card_Diff1_less) auto
  finally show ?thesis .
qed

termination traverse
proof (relation "(\<lambda>(it, byUID, h, nodeMap, queue, uidSet). card (frontier byUID h nodeMap queue - uidSet))
          <*mlex*> measure (\<lambda>(it, byUID, h, nodeMap, queue, uidSet). length queue)", goal_cases)
  case 1
  show ?case by (rule wf_mlex) (rule wf_measure)
next
  case (2 it byUID h nodeMap uid rest uidSet)
  have "frontier byUID h nodeMap rest - uidSet \<subseteq> frontier byUID h nodeMap (uid # rest) - uidSet"
    by (auto simp: frontier_Cons)
  then have "card (frontier byUID h nodeMap rest - uidSet) \<le> card (frontier byUID h nodeMap (uid # rest) - uidSet)"
    by (intro card_mono finite_Diff finite_frontier)
  then show ?case by (intro mlex_leq) simp_all
next
  case (3 it byUID h nodeMap uid rest uidSet)
  have "card (frontier byUID h nodeMap (uid # rest) - insert uid uidSet) < card (frontier byUID h nodeMap (uid # rest) - uidSet)"
    using 3(1) by (intro card_Diff_insert_less finite_frontier) (simp_all add: frontier_Cons)
  then show ?case by (intro mlex_less) simp
next
  case (4 it byUID h nodeMap uid rest uidSet node dependents nodeMap')
  have "frontier byUID h nodeMap' (rest @ dependents) \<subseteq> frontier byUID h nodeMap (uid # rest)"
    unfolding 4(3,4) using 4(2) by (rule frontier_step)
  then have "card (frontier byUID h nodeMap' (rest @ dependents) - insert uid uidSet) < card (frontier byUID h nodeMap (uid # rest) - uidSet)"
    using 4(1) by (intro card_Diff_insert_less finite_frontier) (simp_all add: frontier_Cons)
  then show ?case by (intro mlex_less) simp
qed


text \<open>
  \<open>ResolveDependents\<close> returns the \<open>NodeMap\<close>. The traversal does not change the store,
  and the caller reads the nodes through the returned pointers, so the model returns
  every key with the node its pointer refers to (\<open>None\<close> for a nil pointer).
\<close>

definition ResolveDependents ::
    "iteration \<Rightarrow> 'c extractors \<Rightarrow> 'c Unstructured list \<Rightarrow> UID \<Rightarrow> (UID \<times> 'c Node option) list" where
  "ResolveDependents it getRelationships objects rootUID =
     (let g = resolveGraph it getRelationships objects;
          root = map_of (globalMapByUID g) rootUID;
          nodeMap = (if root \<noteq> None then [(rootUID, root)] else []);
          uidQueue = (if root \<noteq> None then [rootUID] else []);
          nodeMap' = traverse it (globalMapByUID g) (nodes g) nodeMap uidQueue {}
      in map (\<lambda>(uid, ptr). (uid, map_option (\<lambda>p. nodes g ! p) ptr)) nodeMap')"


section \<open>The keys of references and label selectors\<close>

lemma split_at_separator:
  assumes "c \<notin> set a" "c \<notin> set a'" "a @ c # r = a' @ c # r'"
  shows "a = a' \<and> r = r'"
  using assms
proof (induction a arbitrary: a')
  case Nil
  then show ?case by (cases a') auto
next
  case (Cons x a)
  then show ?case by (cases a') auto
qed

lemma key_components:
  assumes "c \<notin> set g" "c \<notin> set k" "c \<notin> set n"
    and "c \<notin> set g'" "c \<notin> set k'" "c \<notin> set n'"
    and "g @ [c] @ k @ [c] @ n @ [c] @ x = g' @ [c] @ k' @ [c] @ n' @ [c] @ x'"
  shows "g = g' \<and> k = k' \<and> n = n' \<and> x = x'"
proof -
  from assms(7) have 1: "g @ c # (k @ [c] @ n @ [c] @ x) = g' @ c # (k' @ [c] @ n' @ [c] @ x')"
    by simp
  from split_at_separator [OF assms(1) assms(4) 1]
  have g: "g = g'" and 2: "k @ c # (n @ [c] @ x) = k' @ c # (n' @ [c] @ x')" by simp_all
  from split_at_separator [OF assms(2) assms(5) 2]
  have k: "k = k'" and 3: "n @ c # x = n' @ c # x'" by simp_all
  from split_at_separator [OF assms(3) assms(6) 3] g k show ?thesis by simp
qed

text \<open>A component is free of the separator when it holds no backslash.\<close>

definition separatorFree :: "string \<Rightarrow> bool" where
  "separatorFree s = (backslash \<notin> set s)"

text \<open>
  C5 (as amended). The two \<open>Key\<close> functions are total functions of the components. For
  references whose group, kind and namespace hold no backslash, two keys are equal if and
  only if the references are equal component by component; for label selectors whose group,
  kind and namespace hold no backslash, two keys are equal if and only if group, kind,
  namespace and the stringified selector are equal. (The last component may hold any
  byte.)
\<close>

theorem Key_injective_without_separator:
  "(separatorFree (refGroup a) \<and> separatorFree (refKind a) \<and> separatorFree (refNamespace a)
      \<and> separatorFree (refGroup b) \<and> separatorFree (refKind b) \<and> separatorFree (refNamespace b)
     \<longrightarrow> (ObjectReference_Key a = ObjectReference_Key b \<longleftrightarrow> a = b))
   \<and> (separatorFree (selGroup s) \<and> separatorFree (selKind s) \<and> separatorFree (selNamespace s)
      \<and> separatorFree (selGroup t) \<and> separatorFree (selKind t) \<and> separatorFree (selNamespace t)
     \<longrightarrow> (ObjectLabelSelector_Key s = ObjectLabelSelector_Key t \<longleftrightarrow>
            selGroup s = selGroup t \<and> selKind s = selKind t \<and> selNamespace s = selNamespace t
              \<and> String (selSelector s) = String (selSelector t)))"
proof (intro conjI impI)
  assume f: "separatorFree (refGroup a) \<and> separatorFree (refKind a) \<and> separatorFree (refNamespace a)
      \<and> separatorFree (refGroup b) \<and> separatorFree (refKind b) \<and> separatorFree (refNamespace b)"
  show "ObjectReference_Key a = ObjectReference_Key b \<longleftrightarrow> a = b"
  proof
    assume "ObjectReference_Key a = ObjectReference_Key b"
    then have "refGroup a = refGroup b \<and> refKind a = refKind b \<and> refNamespace a = refNamespace b
        \<and> refName a = refName b"
      unfolding ObjectReference_Key_def using f
      by (intro key_components [where c = backslash]) (simp_all add: separatorFree_def)
    then show "a = b" by simp
  next
    assume "a = b"
    then show "ObjectReference_Key a = ObjectReference_Key b" by simp
  qed
next
  assume f: "separatorFree (selGroup s) \<and> separatorFree (selKind s) \<and> separatorFree (selNamespace s)
      \<and> separatorFree (selGroup t) \<and> separatorFree (selKind t) \<and> separatorFree (selNamespace t)"
  show "ObjectLabelSelector_Key s = ObjectLabelSelector_Key t \<longleftrightarrow>
            selGroup s = selGroup t \<and> selKind s = selKind t \<and> selNamespace s = selNamespace t
              \<and> String (selSelector s) = String (selSelector t)"
  proof
    assume "ObjectLabelSelector_Key s = ObjectLabelSelector_Key t"
    then show "selGroup s = selGroup t \<and> selKind s = selKind t \<and> selNamespace s = selNamespace t
              \<and> String (selSelector s) = String (selSelector t)"
      unfolding ObjectLabelSelector_Key_def using f
      by (intro key_components [where c = backslash]) (simp_all add: separatorFree_def)
  next
    assume "selGroup s = selGroup t \<and> selKind s = selKind t \<and> selNamespace s = selNamespace t
              \<and> String (selSelector s) = String (selSelector t)"
    then show "ObjectLabelSelector_Key s = ObjectLabelSelector_Key t"
      by (simp add: ObjectLabelSelector_Key_def)
  qed
qed

text \<open>An instance: two references, and two selectors, that differ in the last
  component have different keys.\<close>

theorem Key_injective_witness:
  "separatorFree ''apps'' \<and> separatorFree ''Deployment'' \<and> separatorFree ''default''
    \<and> ObjectReference_Key \<lparr>refGroup = ''apps'', refKind = ''Deployment'', refNamespace = ''default'', refName = ''web''\<rparr>
        \<noteq> ObjectReference_Key \<lparr>refGroup = ''apps'', refKind = ''Deployment'', refNamespace = ''default'', refName = ''db''\<rparr>
    \<and> ObjectLabelSelector_Key \<lparr>selGroup = [], selKind = ''Pod'', selNamespace = ''default'',
          selSelector = \<lparr>String = ''app=web'', Matches = (\<lambda>l. map_of l ''app'' = Some ''web'')\<rparr>\<rparr>
        \<noteq> ObjectLabelSelector_Key \<lparr>selGroup = [], selKind = ''Pod'', selNamespace = ''default'',
          selSelector = \<lparr>String = ''app=db'', Matches = (\<lambda>l. map_of l ''app'' = Some ''db'')\<rparr>\<rparr>"
proof -
  have f: "separatorFree ''apps'' \<and> separatorFree ''Deployment'' \<and> separatorFree ''default''
      \<and> separatorFree [] \<and> separatorFree ''Pod''"
    by (simp add: separatorFree_def backslash_def)
  show ?thesis
    using f Key_injective_without_separator
      [of "\<lparr>refGroup = ''apps'', refKind = ''Deployment'', refNamespace = ''default'', refName = ''web''\<rparr>"
          "\<lparr>refGroup = ''apps'', refKind = ''Deployment'', refNamespace = ''default'', refName = ''db''\<rparr>"
          "\<lparr>selGroup = [], selKind = ''Pod'', selNamespace = ''default'',
          selSelector = \<lparr>String = ''app=web'', Matches = (\<lambda>l. map_of l ''app'' = Some ''web'')\<rparr>\<rparr>"
          "\<lparr>selGroup = [], selKind = ''Pod'', selNamespace = ''default'',
          selSelector = \<lparr>String = ''app=db'', Matches = (\<lambda>l. map_of l ''app'' = Some ''db'')\<rparr>\<rparr>"]
    by simp
qed

text \<open>
  Without the restriction the keys are not injective: the references with group \<open>a\b\<close>,
  kind \<open>c\<close> and with group \<open>a\<close>, kind \<open>b\c\<close> differ and have the same key
  \<open>a\b\c\ns\n\<close>.
\<close>

theorem Key_collision:
  "ObjectReference_Key \<lparr>refGroup = ''a'' @ [backslash] @ ''b'', refKind = ''c'', refNamespace = ''ns'', refName = ''n''\<rparr>
     = ObjectReference_Key \<lparr>refGroup = ''a'', refKind = ''b'' @ [backslash] @ ''c'', refNamespace = ''ns'', refName = ''n''\<rparr>
   \<and> \<lparr>refGroup = ''a'' @ [backslash] @ ''b'', refKind = ''c'', refNamespace = ''ns'', refName = ''n''\<rparr>
     \<noteq> \<lparr>refGroup = ''a'', refKind = ''b'' @ [backslash] @ ''c'', refNamespace = ''ns'', refName = ''n''\<rparr>"
  by (simp add: ObjectReference_Key_def)

section \<open>The global maps of an input collection\<close>

definition indexKeys :: "'c Unstructured \<Rightarrow> UID set" where
  "indexKeys obj =
     insert (GetUID obj)
       (if GvkGroup obj = [] \<and> GvkKind obj = ''Node''
        then insert (GetName obj)
               (case map_of (GetLabels obj) ''kubernetes.io/hostname'' of
                  Some hostname \<Rightarrow> {hostname} | None \<Rightarrow> {})
        else {})"

lemma nodes_indexObject: "nodes (indexObject g obj) = nodes g @ [newNode obj]"
  by (simp add: indexObject_def Let_def)

lemma byUID_indexObject:
  "map_of (globalMapByUID (indexObject g obj)) k =
     (if k \<in> indexKeys obj then Some (length (nodes g)) else map_of (globalMapByUID g) k)"
  by (simp add: indexObject_def Let_def indexKeys_def newNode_def update_conv' split: option.splits)

lemma byKey_indexObject:
  "map_of (globalMapByKey (indexObject g obj)) k =
     (if k = GetObjectReferenceKey (newNode obj) then Some (length (nodes g))
      else map_of (globalMapByKey g) k)"
  by (simp add: indexObject_def Let_def update_conv')

lemma distinct_indexObject:
  "distinct (map fst (globalMapByUID g)) \<Longrightarrow> distinct (map fst (globalMapByUID (indexObject g obj)))"
  "distinct (map fst (globalMapByKey g)) \<Longrightarrow> distinct (map fst (globalMapByKey (indexObject g obj)))"
  by (simp_all add: indexObject_def Let_def distinct_update split: option.splits)

lemma nodes_foldl_indexObject:
  "nodes (foldl indexObject g objs) = nodes g @ map newNode objs"
  by (induction objs arbitrary: g) (simp_all add: nodes_indexObject)

lemma distinct_foldl_indexObject:
  "distinct (map fst (globalMapByUID g)) \<Longrightarrow> distinct (map fst (globalMapByUID (foldl indexObject g objs)))"
  "distinct (map fst (globalMapByKey g)) \<Longrightarrow> distinct (map fst (globalMapByKey (foldl indexObject g objs)))"
  by (induction objs arbitrary: g) (simp_all add: distinct_indexObject)

lemma byUID_foldl_unwritten:
  "k \<notin> (\<Union>obj \<in> set objs. indexKeys obj) \<Longrightarrow>
     map_of (globalMapByUID (foldl indexObject g objs)) k = map_of (globalMapByUID g) k"
  by (induction objs arbitrary: g) (simp_all add: byUID_indexObject)

lemma byUID_foldl_last_writer:
  assumes "k \<in> indexKeys x" "k \<notin> (\<Union>obj \<in> set post. indexKeys obj)"
  shows "map_of (globalMapByUID (foldl indexObject g (pre @ x # post))) k
           = Some (length (nodes g) + length pre)"
proof -
  have "map_of (globalMapByUID (foldl indexObject g (pre @ x # post))) k
      = map_of (globalMapByUID (indexObject (foldl indexObject g pre) x)) k"
    using assms(2) by (simp add: byUID_foldl_unwritten)
  also have "\<dots> = Some (length (nodes (foldl indexObject g pre)))"
    using assms(1) by (simp add: byUID_indexObject)
  finally show ?thesis by (simp add: nodes_foldl_indexObject)
qed

lemma byUID_foldl_origin:
  "map_of (globalMapByUID (foldl indexObject g objs)) k = Some p \<Longrightarrow>
     map_of (globalMapByUID g) k = Some p
     \<or> (length (nodes g) \<le> p \<and> p < length (nodes g) + length objs
          \<and> k \<in> indexKeys (objs ! (p - length (nodes g))))"
proof (induction objs arbitrary: g)
  case Nil
  then show ?case by simp
next
  case (Cons obj objs)
  from Cons.prems have "map_of (globalMapByUID (foldl indexObject (indexObject g obj) objs)) k = Some p"
    by simp
  from Cons.IH [OF this] show ?case
  proof
    assume "map_of (globalMapByUID (indexObject g obj)) k = Some p"
    then show ?thesis by (auto simp: byUID_indexObject split: if_splits)
  next
    assume a: "length (nodes (indexObject g obj)) \<le> p \<and>
      p < length (nodes (indexObject g obj)) + length objs \<and>
      k \<in> indexKeys (objs ! (p - length (nodes (indexObject g obj))))"
    then have l: "length (nodes g) < p" by (simp add: nodes_indexObject)
    then have "p - length (nodes g) = Suc (p - length (nodes (indexObject g obj)))"
      by (simp add: nodes_indexObject Suc_diff_Suc)
    with a l show ?thesis by (simp add: nodes_indexObject)
  qed
qed

lemma byKey_foldl_bound:
  "map_of (globalMapByKey (foldl indexObject g objs)) k = Some p \<Longrightarrow>
     map_of (globalMapByKey g) k = Some p \<or> p < length (nodes g) + length objs"
proof (induction objs arbitrary: g)
  case Nil
  then show ?case by simp
next
  case (Cons obj objs)
  from Cons.prems have "map_of (globalMapByKey (foldl indexObject (indexObject g obj) objs)) k = Some p"
    by simp
  from Cons.IH [OF this] show ?case
    by (auto simp: byKey_indexObject nodes_indexObject split: if_splits)
qed

lemma dom_byUID_foldl:
  "dom (map_of (globalMapByUID (foldl indexObject g objs)))
     = dom (map_of (globalMapByUID g)) \<union> (\<Union>obj \<in> set objs. indexKeys obj)"
proof (induction objs arbitrary: g)
  case Nil
  then show ?case by simp
next
  case (Cons obj objs)
  have "dom (map_of (globalMapByUID (indexObject g obj))) = dom (map_of (globalMapByUID g)) \<union> indexKeys obj"
    by (auto simp: byUID_indexObject dom_def)
  with Cons.IH [of "indexObject g obj"] show ?case by auto
qed

text \<open>Facts about the global maps of an input collection.\<close>

lemma nodes_buildGlobalMaps: "nodes (buildGlobalMaps objects) = map newNode objects"
  by (simp add: buildGlobalMaps_def nodes_foldl_indexObject)

lemma distinct_buildGlobalMaps:
  "distinct (map fst (globalMapByUID (buildGlobalMaps objects)))"
  "distinct (map fst (globalMapByKey (buildGlobalMaps objects)))"
  by (simp_all add: buildGlobalMaps_def distinct_foldl_indexObject)

lemma byUID_buildGlobalMaps_origin:
  assumes "map_of (globalMapByUID (buildGlobalMaps objects)) k = Some p"
  shows "p < length objects \<and> k \<in> indexKeys (objects ! p)"
  using byUID_foldl_origin [OF assms [unfolded buildGlobalMaps_def]] by simp

lemma byKey_buildGlobalMaps_bound:
  assumes "map_of (globalMapByKey (buildGlobalMaps objects)) k = Some p"
  shows "p < length objects"
  using byKey_foldl_bound [OF assms [unfolded buildGlobalMaps_def]] by simp

lemma dom_byUID_buildGlobalMaps:
  "dom (map_of (globalMapByUID (buildGlobalMaps objects))) = (\<Union>obj \<in> set objects. indexKeys obj)"
  by (simp add: buildGlobalMaps_def dom_byUID_foldl)

lemma byUID_buildGlobalMaps_last_writer:
  assumes "k \<in> indexKeys x" "k \<notin> (\<Union>obj \<in> set post. indexKeys obj)"
  shows "map_of (globalMapByUID (buildGlobalMaps (pre @ x # post))) k = Some (length pre)"
  using byUID_foldl_last_writer [OF assms] by (simp add: buildGlobalMaps_def)

lemma GetUID_indexed:
  "obj \<in> set objects \<Longrightarrow> GetUID obj \<in> dom (map_of (globalMapByUID (buildGlobalMaps objects)))"
  unfolding dom_byUID_buildGlobalMaps by (auto simp: indexKeys_def)

section \<open>Correctness of the traversal\<close>

definition dependentsOf :: "(UID \<times> nat) list \<Rightarrow> 'c Node list \<Rightarrow> UID \<Rightarrow> UID set" where
  "dependentsOf byUID h u =
     (case map_of byUID u of None \<Rightarrow> {} | Some p \<Rightarrow> fst ` set (Dependents (h ! p)))"

definition dependentEdges :: "(UID \<times> nat) list \<Rightarrow> 'c Node list \<Rightarrow> (UID \<times> UID) set" where
  "dependentEdges byUID h = {(u, d). d \<in> dependentsOf byUID h u}"

lemma map_of_includeDependents:
  "map_of (foldl (\<lambda>m dUID. AList.update dUID (f dUID) m) nodeMap ds) u
     = (if u \<in> set ds then Some (f u) else map_of nodeMap u)"
  by (induction ds arbitrary: nodeMap) (simp_all add: update_conv')

lemma distinct_includeDependents:
  "distinct (map fst nodeMap) \<Longrightarrow>
     distinct (map fst (foldl (\<lambda>m dUID. AList.update dUID (f dUID) m) nodeMap ds))"
  by (induction ds arbitrary: nodeMap) (simp_all add: distinct_update)

lemma dom_includeDependents:
  "dom (map_of (foldl (\<lambda>m dUID. AList.update dUID (f dUID) m) nodeMap ds)) = dom (map_of nodeMap) \<union> set ds"
  by (auto simp: map_of_includeDependents dom_def)

lemma rtrancl_Image_step:
  assumes "A' \<subseteq> A \<union> E `` A"
  shows "E\<^sup>* `` A' \<subseteq> E\<^sup>* `` A"
proof
  fix y assume "y \<in> E\<^sup>* `` A'"
  then obtain x where x: "x \<in> A'" "(x, y) \<in> E\<^sup>*" by auto
  from x(1) assms have "x \<in> A \<or> x \<in> E `` A" by auto
  then obtain a where "a \<in> A" "(a, x) \<in> E\<^sup>*" by auto
  with x(2) show "y \<in> E\<^sup>* `` A" by (meson ImageI rtrancl_trans)
qed

lemma rtrancl_Image_closed:
  assumes "A \<subseteq> S" "\<And>u. u \<in> S \<Longrightarrow> E `` {u} \<subseteq> S"
  shows "E\<^sup>* `` A \<subseteq> S"
proof
  fix y assume "y \<in> E\<^sup>* `` A"
  then obtain x where x: "x \<in> A" "(x, y) \<in> E\<^sup>*" by auto
  from x(2) have "x \<in> S \<Longrightarrow> y \<in> S"
    by (induction rule: rtrancl_induct) (use assms(2) in auto)
  with x(1) assms(1) show "y \<in> S" by auto
qed

definition traversed :: "(UID \<times> nat) list \<Rightarrow> 'c Node list \<Rightarrow> NodeMap \<Rightarrow> NodeMap \<Rightarrow> bool" where
  "traversed byUID h nodeMap R \<longleftrightarrow>
     (\<forall>u v. map_of R u = Some v \<longrightarrow> v = map_of byUID u)
     \<and> dom (map_of nodeMap) \<subseteq> dom (map_of R)
     \<and> (\<forall>u \<in> dom (map_of R). dependentsOf byUID h u \<subseteq> dom (map_of R))
     \<and> dom (map_of R) \<subseteq> (dependentEdges byUID h)\<^sup>* `` dom (map_of nodeMap)"

lemma traversed_extend:
  assumes "traversed byUID h nodeMap' R"
    and "dom (map_of nodeMap) \<subseteq> dom (map_of nodeMap')"
    and "dom (map_of nodeMap') \<subseteq> dom (map_of nodeMap) \<union> dependentEdges byUID h `` dom (map_of nodeMap)"
  shows "traversed byUID h nodeMap R"
proof -
  from assms(1) have 1: "\<forall>u v. map_of R u = Some v \<longrightarrow> v = map_of byUID u"
    and 2: "dom (map_of nodeMap') \<subseteq> dom (map_of R)"
    and 3: "\<forall>u \<in> dom (map_of R). dependentsOf byUID h u \<subseteq> dom (map_of R)"
    and 4: "dom (map_of R) \<subseteq> (dependentEdges byUID h)\<^sup>* `` dom (map_of nodeMap')"
    by (simp_all add: traversed_def)
  from assms(3) have "(dependentEdges byUID h)\<^sup>* `` dom (map_of nodeMap') \<subseteq> (dependentEdges byUID h)\<^sup>* `` dom (map_of nodeMap)"
    by (rule rtrancl_Image_step)
  with 4 have r4: "dom (map_of R) \<subseteq> (dependentEdges byUID h)\<^sup>* `` dom (map_of nodeMap)"
    by (rule subset_trans)
  from assms(2) 2 have r2: "dom (map_of nodeMap) \<subseteq> dom (map_of R)"
    by (rule subset_trans)
  from 1 r2 3 r4 show ?thesis unfolding traversed_def by (intro conjI)
qed

lemma traverse_invariant:
  assumes "\<And>u v. map_of nodeMap u = Some v \<Longrightarrow> v = map_of byUID u"
    and "dom (map_of nodeMap) = uidSet \<union> set queue"
    and "\<And>u. u \<in> uidSet \<Longrightarrow> dependentsOf byUID h u \<subseteq> dom (map_of nodeMap)"
  shows "traversed byUID h nodeMap (traverse it byUID h nodeMap queue uidSet)"
  using assms
proof (induction it byUID h nodeMap queue uidSet rule: traverse.induct)
  case (1 it byUID h nodeMap uidSet)
  then show ?case by (auto simp: traversed_def)
next
  case (2 it byUID h nodeMap uid rest uidSet)
  note vals = "2.prems"(1) and dom = "2.prems"(2) and closed = "2.prems"(3)
  show ?case
  proof (cases "uid \<in> uidSet")
    case True
    have "traversed byUID h nodeMap (traverse it byUID h nodeMap rest uidSet)"
      using True vals dom closed by (intro "2.IH"(1)) auto
    with True show ?thesis by simp
  next
    case False
    show ?thesis
    proof (cases "lookupNode nodeMap uid")
      case None
      have in_dom: "uid \<in> dom (map_of nodeMap)" using dom by simp
      then obtain v where v: "map_of nodeMap uid = Some v" by auto
      with None have "v = None" by (simp add: lookupNode_def)
      with vals [OF v] have "map_of byUID uid = None" by simp
      then have no_deps: "dependentsOf byUID h uid = {}" by (simp add: dependentsOf_def)
      have "traversed byUID h nodeMap (traverse it byUID h nodeMap (uid # rest) (insert uid uidSet))"
      proof (rule "2.IH"(2) [OF False None])
        show "v = map_of byUID u" if "map_of nodeMap u = Some v" for u v
          using that by (rule vals)
        show "dom (map_of nodeMap) = insert uid uidSet \<union> set (uid # rest)" using dom by auto
        show "dependentsOf byUID h u \<subseteq> dom (map_of nodeMap)" if "u \<in> insert uid uidSet" for u
          using that no_deps closed by auto
      qed
      with False None show ?thesis by simp
    next
      case (Some node)
      define dependents where "dependents = map fst (rangeOver it (Dependents (h ! node)))"
      define nodeMap' where "nodeMap' = foldl (\<lambda>m dUID. AList.update dUID (map_of byUID dUID) m) nodeMap dependents"
      have in_dom: "uid \<in> dom (map_of nodeMap)" using dom by simp
      then obtain v where v: "map_of nodeMap uid = Some v" by auto
      with Some have "v = Some node" by (simp add: lookupNode_def)
      with vals [OF v] have "map_of byUID uid = Some node" by simp
      then have deps: "dependentsOf byUID h uid = set dependents"
        by (simp add: dependentsOf_def dependents_def set_rangeOver)
      have dom': "dom (map_of nodeMap') = dom (map_of nodeMap) \<union> set dependents"
        by (simp add: nodeMap'_def dom_includeDependents)
      have IH: "traversed byUID h nodeMap' (traverse it byUID h nodeMap' (rest @ dependents) (insert uid uidSet))"
      proof (rule "2.IH"(3) [OF False Some dependents_def nodeMap'_def])
        show "v = map_of byUID u" if "map_of nodeMap' u = Some v" for u v
          using that vals by (auto simp: nodeMap'_def map_of_includeDependents split: if_splits)
        show "dom (map_of nodeMap') = insert uid uidSet \<union> set (rest @ dependents)"
          using dom dom' by auto
        show "dependentsOf byUID h u \<subseteq> dom (map_of nodeMap')" if "u \<in> insert uid uidSet" for u
          using that deps closed dom' by auto
      qed
      have "set dependents \<subseteq> dependentEdges byUID h `` dom (map_of nodeMap)"
        using in_dom deps by (auto simp: dependentEdges_def)
      then have grow: "dom (map_of nodeMap') \<subseteq> dom (map_of nodeMap) \<union> dependentEdges byUID h `` dom (map_of nodeMap)"
        using dom' by auto
      have keep: "dom (map_of nodeMap) \<subseteq> dom (map_of nodeMap')"
        using dom' by simp
      have "traversed byUID h nodeMap (traverse it byUID h nodeMap' (rest @ dependents) (insert uid uidSet))"
        by (rule traversed_extend [OF IH keep grow])
      then show ?thesis using False Some by (simp add: Let_def dependents_def nodeMap'_def)
    qed
  qed
qed

lemma traverse_distinct:
  "distinct (map fst nodeMap) \<Longrightarrow> distinct (map fst (traverse it byUID h nodeMap queue uidSet))"
proof (induction it byUID h nodeMap queue uidSet rule: traverse.induct)
  case (1 it byUID h nodeMap uidSet)
  then show ?case by simp
next
  case (2 it byUID h nodeMap uid rest uidSet)
  then show ?case
    by (auto simp: Let_def distinct_includeDependents split: option.splits)
qed

lemma traversed_dom:
  assumes "traversed byUID h nodeMap R"
  shows "dom (map_of R) = (dependentEdges byUID h)\<^sup>* `` dom (map_of nodeMap)"
proof
  show "dom (map_of R) \<subseteq> (dependentEdges byUID h)\<^sup>* `` dom (map_of nodeMap)"
    using assms by (simp add: traversed_def)
  show "(dependentEdges byUID h)\<^sup>* `` dom (map_of nodeMap) \<subseteq> dom (map_of R)"
  proof (rule rtrancl_Image_closed)
    show "dom (map_of nodeMap) \<subseteq> dom (map_of R)" using assms by (simp add: traversed_def)
    show "dependentEdges byUID h `` {u} \<subseteq> dom (map_of R)" if "u \<in> dom (map_of R)" for u
      using assms that by (auto simp: traversed_def dependentEdges_def)
  qed
qed

section \<open>The edges recorded in the store\<close>

definition labels :: "'c Node \<Rightarrow> UID \<Rightarrow> Relationship set" where
  "labels n u = (case map_of (Dependents n) u of None \<Rightarrow> {} | Some rs \<Rightarrow> set rs)"

definition edges :: "'c Node list \<Rightarrow> (nat \<times> UID \<times> Relationship) set" where
  "edges h = {(q, u, r). q < length h \<and> r \<in> labels (h ! q) u}"

definition skeleton :: "'c Node list \<Rightarrow> 'c Node list" where
  "skeleton h = map (\<lambda>n. n\<lparr>Dependents := []\<rparr>) h"

definition inhabited :: "'c Node list \<Rightarrow> bool" where
  "inhabited h \<longleftrightarrow> (\<forall>n \<in> set h. \<forall>u rs. map_of (Dependents n) u = Some rs \<longrightarrow> rs \<noteq> [])"

definition grows :: "'c Node list \<Rightarrow> (nat \<times> UID \<times> Relationship) set \<Rightarrow> 'c Node list \<Rightarrow> bool" where
  "grows h T h' \<longleftrightarrow>
     skeleton h' = skeleton h \<and> edges h' = edges h \<union> T \<and> (inhabited h \<longrightarrow> inhabited h')"

lemma length_skeleton [simp]: "length (skeleton h) = length h"
  by (simp add: skeleton_def)

lemma skeleton_length: "skeleton h' = skeleton h \<Longrightarrow> length h' = length h"
  by (metis length_skeleton)

lemma skeleton_nth: "p < length h \<Longrightarrow> skeleton h ! p = (h ! p)\<lparr>Dependents := []\<rparr>"
  by (simp add: skeleton_def)

lemma skeleton_fields:
  assumes "p < length h"
  shows "UID (skeleton h ! p) = UID (h ! p)"
    and "Group (skeleton h ! p) = Group (h ! p)"
    and "Kind (skeleton h ! p) = Kind (h ! p)"
    and "Namespace (skeleton h ! p) = Namespace (h ! p)"
    and "Name (skeleton h ! p) = Name (h ! p)"
    and "Object (skeleton h ! p) = Object (h ! p)"
    and "OwnerReferences (skeleton h ! p) = OwnerReferences (h ! p)"
  using assms by (simp_all add: skeleton_nth)

lemma node_from_skeleton:
  "p < length h \<Longrightarrow> h ! p = (skeleton h ! p)\<lparr>Dependents := Dependents (h ! p)\<rparr>"
  by (simp add: skeleton_nth)

lemma map_of_AddDependent:
  "map_of (Dependents (AddDependent uid r n))
     = (map_of (Dependents n))(uid \<mapsto> List.insert r (case map_of (Dependents n) uid of None \<Rightarrow> [] | Some rs \<Rightarrow> rs))"
  by (cases "map_of (Dependents n) uid") (simp_all add: AddDependent_def update_conv')

lemma labels_AddDependent:
  "labels (AddDependent uid r n) u = (if u = uid then insert r (labels n uid) else labels n u)"
  by (simp add: labels_def map_of_AddDependent split: option.splits)

lemma AddDependent_skeleton: "(AddDependent uid r n)\<lparr>Dependents := []\<rparr> = n\<lparr>Dependents := []\<rparr>"
  by (simp add: AddDependent_def Let_def)

lemma skeleton_AddDependentAt: "skeleton (AddDependentAt q u r h) = skeleton h"
proof (rule nth_equalityI)
  show "length (skeleton (AddDependentAt q u r h)) = length (skeleton h)"
    by (simp add: AddDependentAt_def)
  fix i assume "i < length (skeleton (AddDependentAt q u r h))"
  then have "i < length h" by (simp add: AddDependentAt_def)
  then show "skeleton (AddDependentAt q u r h) ! i = skeleton h ! i"
    by (cases "i = q") (simp_all add: skeleton_def AddDependentAt_def AddDependent_skeleton)
qed

lemma edges_AddDependentAt:
  assumes "q < length h"
  shows "edges (AddDependentAt q u r h) = insert (q, u, r) (edges h)"
proof -
  have "(q', u', r') \<in> edges (AddDependentAt q u r h) \<longleftrightarrow> (q', u', r') \<in> insert (q, u, r) (edges h)"
    for q' u' r'
    using assms
    by (cases "q' = q") (auto simp: edges_def AddDependentAt_def labels_AddDependent)
  then show ?thesis by (intro set_eqI) (simp only: split_paired_all)
qed

lemma insert_not_Nil: "List.insert r rs \<noteq> []"
  by (cases "r \<in> set rs") auto

lemma inhabited_AddDependentAt:
  assumes "inhabited h"
  shows "inhabited (AddDependentAt q u r h)"
proof (cases "q < length h")
  case False
  then show ?thesis using assms by (simp add: AddDependentAt_def list_update_beyond)
next
  case True
  have new: "rs \<noteq> []" if "map_of (Dependents (AddDependent u r (h ! q))) u' = Some rs" for u' rs
  proof (cases "u' = u")
    case True
    with that have "rs = List.insert r (case map_of (Dependents (h ! q)) u of None \<Rightarrow> [] | Some rs \<Rightarrow> rs)"
      by (simp add: map_of_AddDependent)
    then show ?thesis by (simp add: insert_not_Nil)
  next
    case False
    with that have "map_of (Dependents (h ! q)) u' = Some rs"
      by (simp add: map_of_AddDependent)
    moreover have "h ! q \<in> set h" using \<open>q < length h\<close> by simp
    ultimately show ?thesis using assms by (auto simp: inhabited_def)
  qed
  show ?thesis
    unfolding inhabited_def
  proof (intro ballI allI impI)
    fix n u' rs
    assume n: "n \<in> set (AddDependentAt q u r h)" and m: "map_of (Dependents n) u' = Some rs"
    have "set (h[q := AddDependent u r (h ! q)]) \<subseteq> insert (AddDependent u r (h ! q)) (set h)"
      by (rule set_update_subset_insert)
    with n have "n \<in> insert (AddDependent u r (h ! q)) (set h)"
      unfolding AddDependentAt_def by (rule rev_subsetD)
    then have "n = AddDependent u r (h ! q) \<or> n \<in> set h" by simp
    then show "rs \<noteq> []"
    proof
      assume "n \<in> set h"
      with assms m show ?thesis by (auto simp: inhabited_def)
    next
      assume "n = AddDependent u r (h ! q)"
      with m new show ?thesis by blast
    qed
  qed
qed

lemma grows_AddDependentAt:
  "q < length h \<Longrightarrow> grows h {(q, u, r)} (AddDependentAt q u r h)"
  by (simp add: grows_def skeleton_AddDependentAt edges_AddDependentAt inhabited_AddDependentAt)

lemma grows_refl: "grows h {} h"
  by (simp add: grows_def)

lemma grows_trans: "grows h T h' \<Longrightarrow> grows h' T' h'' \<Longrightarrow> grows h (T \<union> T') h''"
  by (auto simp: grows_def)

lemma grows_skeleton: "grows h T h' \<Longrightarrow> skeleton h' = skeleton h"
  by (simp add: grows_def)

lemma grows_length: "grows h T h' \<Longrightarrow> length h' = length h"
  by (rule skeleton_length) (simp add: grows_def)

lemma grows_foldl:
  assumes "\<And>x h'. x \<in> set xs \<Longrightarrow> skeleton h' = skeleton h \<Longrightarrow> grows h' (F x) (step h' x)"
  shows "grows h (\<Union>x \<in> set xs. F x) (foldl step h xs)"
  using assms
proof (induction xs arbitrary: h)
  case Nil
  show ?case by (simp add: grows_refl)
next
  case (Cons x xs)
  have first: "grows h (F x) (step h x)" by (rule Cons.prems) simp_all
  have "grows (step h x) (\<Union>x \<in> set xs. F x) (foldl step (step h x) xs)"
  proof (rule Cons.IH)
    fix y h' assume "y \<in> set xs" "skeleton h' = skeleton (step h x)"
    then show "grows h' (F y) (step h' y)"
      using grows_skeleton [OF first] by (intro Cons.prems) simp_all
  qed
  from grows_trans [OF first this] show ?case by simp
qed

lemma grows_rangeOver:
  assumes "\<And>x h'. x \<in> set xs \<Longrightarrow> skeleton h' = skeleton h \<Longrightarrow> grows h' (F x) (step h' x)"
  shows "grows h (\<Union>x \<in> set xs. F x) (foldl step h (rangeOver it xs))"
  using grows_foldl [of "rangeOver it xs" h F step] assms by (simp add: set_rangeOver)

subsection \<open>Edges added by the loops of updateRelationships\<close>

definition validPtrs :: "('k \<times> nat) list \<Rightarrow> 'c Node list \<Rightarrow> bool" where
  "validPtrs m h \<longleftrightarrow> (\<forall>p \<in> snd ` set m. p < length h)"

lemma validPtrs_lookup: "validPtrs m h \<Longrightarrow> map_of m k = Some p \<Longrightarrow> p < length h"
  by (auto simp: validPtrs_def dest!: map_of_SomeD)

lemma validPtrs_entry: "validPtrs m h \<Longrightarrow> (k, p) \<in> set m \<Longrightarrow> p < length h"
  by (force simp: validPtrs_def)

lemma validPtrs_skeleton: "validPtrs m (skeleton h) = validPtrs m h"
  by (simp add: validPtrs_def)

definition reverseEdges :: "'c Node list \<Rightarrow> nat \<Rightarrow> nat \<Rightarrow> RelationshipSet \<Rightarrow> (nat \<times> UID \<times> Relationship) set" where
  "reverseEdges sk node n rset = (\<lambda>r. (n, UID (sk ! node), r)) ` set rset"

definition forwardEdges :: "'c Node list \<Rightarrow> nat \<Rightarrow> nat \<Rightarrow> RelationshipSet \<Rightarrow> (nat \<times> UID \<times> Relationship) set" where
  "forwardEdges sk node n rset = (\<lambda>r. (node, UID (sk ! n), r)) ` set rset"

lemma grows_addDependency:
  assumes "node < length h" "n < length h"
  shows "grows h (reverseEdges (skeleton h) node n rset) (addDependency it node n rset h)"
proof -
  have "grows h (\<Union>r \<in> set rset. {(n, UID (skeleton h ! node), r)})
          (foldl (\<lambda>h r. AddDependentAt n (UID (h ! node)) r h) h (rangeOver it rset))"
  proof (rule grows_rangeOver)
    fix r h' assume sk: "skeleton h' = skeleton h"
    then have len: "length h' = length h" by (rule skeleton_length)
    have "UID (h' ! node) = UID (skeleton h' ! node)"
      using assms(1) len by (simp add: skeleton_fields)
    then have "UID (h' ! node) = UID (skeleton h ! node)" using sk by simp
    moreover have "grows h' {(n, UID (h' ! node), r)} (AddDependentAt n (UID (h' ! node)) r h')"
      using assms(2) len by (intro grows_AddDependentAt) simp
    ultimately show "grows h' {(n, UID (skeleton h ! node), r)} (AddDependentAt n (UID (h' ! node)) r h')"
      by simp
  qed
  moreover have "(\<Union>r \<in> set rset. {(n, UID (skeleton h ! node), r)}) = reverseEdges (skeleton h) node n rset"
    by (auto simp: reverseEdges_def)
  ultimately show ?thesis by (simp add: addDependency_def)
qed

lemma grows_addDependent:
  assumes "node < length h" "n < length h"
  shows "grows h (forwardEdges (skeleton h) node n rset) (addDependent it node n rset h)"
proof -
  have "grows h (\<Union>r \<in> set rset. {(node, UID (skeleton h ! n), r)})
          (foldl (\<lambda>h r. AddDependentAt node (UID (h ! n)) r h) h (rangeOver it rset))"
  proof (rule grows_rangeOver)
    fix r h' assume sk: "skeleton h' = skeleton h"
    then have len: "length h' = length h" by (rule skeleton_length)
    have "UID (h' ! n) = UID (skeleton h' ! n)"
      using assms(2) len by (simp add: skeleton_fields)
    then have "UID (h' ! n) = UID (skeleton h ! n)" using sk by simp
    moreover have "grows h' {(node, UID (h' ! n), r)} (AddDependentAt node (UID (h' ! n)) r h')"
      using assms(1) len by (intro grows_AddDependentAt) simp
    ultimately show "grows h' {(node, UID (skeleton h ! n), r)} (AddDependentAt node (UID (h' ! n)) r h')"
      by simp
  qed
  moreover have "(\<Union>r \<in> set rset. {(node, UID (skeleton h ! n), r)}) = forwardEdges (skeleton h) node n rset"
    by (auto simp: forwardEdges_def)
  ultimately show ?thesis by (simp add: addDependent_def)
qed

text \<open>A loop over the declarations of one table that are resolved by a lookup.\<close>

lemma grows_lookup_loop:
  assumes "\<And>k n. lookup k = Some n \<Longrightarrow> n < length h"
    and "\<And>n rset h'. n < length h \<Longrightarrow> skeleton h' = skeleton h \<Longrightarrow> grows h' (G n rset) (body n rset h')"
  shows "grows h (\<Union>(k, rset) \<in> set m. case lookup k of Some n \<Rightarrow> G n rset | None \<Rightarrow> {})
           (foldl (\<lambda>h (k, rset). case lookup k of Some n \<Rightarrow> body n rset h | None \<Rightarrow> h) h (rangeOver it m))"
proof (rule grows_rangeOver, goal_cases)
  case (1 x h')
  note sk = 1(2)
  obtain k rset where x: "x = (k, rset)" by (cases x)
  show ?case
  proof (cases "lookup k")
    case None
    then show ?thesis by (simp add: x grows_refl)
  next
    case (Some n)
    then have "n < length h" by (rule assms(1))
    from assms(2) [OF this sk] Some show ?thesis by (simp add: x)
  qed
qed

definition selects :: "ObjectLabelSelector \<Rightarrow> 'c Node \<Rightarrow> bool" where
  "selects ols n \<longleftrightarrow>
     Group n = selGroup ols \<and> Kind n = selKind ols \<and> Namespace n = selNamespace ols
       \<and> Matches (selSelector ols) (GetLabels (Object n))"

definition selected :: "'c Node list \<Rightarrow> (UID \<times> nat) list \<Rightarrow> ObjectLabelSelector \<Rightarrow> nat set" where
  "selected sk byUID ols = {n \<in> snd ` set byUID. selects ols (sk ! n)}"

lemma set_resolveSelectorToNodes:
  assumes "validPtrs byUID h"
  shows "set (resolveSelectorToNodes it byUID h ols) = selected (skeleton h) byUID ols"
proof -
  have "selects ols (skeleton h ! n) = selects ols (h ! n)" if "(uid, n) \<in> set byUID" for uid n
    using validPtrs_entry [OF assms that] by (simp add: selects_def skeleton_fields)
  then show ?thesis
    by (force simp: resolveSelectorToNodes_def selected_def set_rangeOver selects_def [of ols "h ! _"])
qed

lemma grows_selector_loop:
  assumes "validPtrs byUID h"
    and "\<And>n rset h'. n < length h \<Longrightarrow> skeleton h' = skeleton h \<Longrightarrow> grows h' (G n rset) (body n rset h')"
  shows "grows h (\<Union>(k, rset) \<in> set m. case map_of sels k of
                     Some ols \<Rightarrow> (\<Union>n \<in> selected (skeleton h) byUID ols. G n rset) | None \<Rightarrow> {})
           (foldl (\<lambda>h (k, rset). case map_of sels k of
                     Some ols \<Rightarrow> foldl (\<lambda>h n. body n rset h) h (resolveSelectorToNodes it byUID h ols)
                   | None \<Rightarrow> h) h (rangeOver it m))"
proof (rule grows_rangeOver, goal_cases)
  case (1 x h')
  note sk = 1(2)
  then have len: "length h' = length h" by (rule skeleton_length)
  with assms(1) have valid': "validPtrs byUID h'" by (simp add: validPtrs_def)
  obtain k rset where x: "x = (k, rset)" by (cases x)
  show ?case
  proof (cases "map_of sels k")
    case None
    then show ?thesis by (simp add: x grows_refl)
  next
    case (Some ols)
    have "grows h' (\<Union>n \<in> set (resolveSelectorToNodes it byUID h' ols). G n rset)
            (foldl (\<lambda>h n. body n rset h) h' (resolveSelectorToNodes it byUID h' ols))"
    proof (rule grows_foldl)
      fix n h'' assume n: "n \<in> set (resolveSelectorToNodes it byUID h' ols)" and sk': "skeleton h'' = skeleton h'"
      from n have "n \<in> snd ` set byUID"
        by (simp add: set_resolveSelectorToNodes [OF valid'] selected_def)
      with assms(1) have "n < length h" by (auto simp: validPtrs_def)
      then show "grows h'' (G n rset) (body n rset h'')"
        using sk sk' by (intro assms(2)) simp_all
    qed
    then show ?thesis
      using Some by (simp add: x set_resolveSelectorToNodes [OF valid'] sk)
  qed
qed

subsection \<open>The edges added by updateRelationships\<close>

lemma grows_addDependency_from:
  assumes "node < length h" "n < length h" "skeleton h' = skeleton h"
  shows "grows h' (reverseEdges (skeleton h) node n rset) (addDependency it node n rset h')"
  using grows_addDependency [of node h' n rset it] assms skeleton_length [OF assms(3)] by simp

lemma grows_addDependent_from:
  assumes "node < length h" "n < length h" "skeleton h' = skeleton h"
  shows "grows h' (forwardEdges (skeleton h) node n rset) (addDependent it node n rset h')"
  using grows_addDependent [of node h' n rset it] assms skeleton_length [OF assms(3)] by simp

definition relationshipEdges ::
    "'c Node list \<Rightarrow> (UID \<times> nat) list \<Rightarrow> (ObjectReferenceKey \<times> nat) list \<Rightarrow> nat \<Rightarrow> RelationshipMap
      \<Rightarrow> (nat \<times> UID \<times> Relationship) set" where
  "relationshipEdges sk byUID byKey node rmap =
     (\<Union>(k, rset) \<in> set (DependenciesByRef rmap).
         case map_of byKey k of Some n \<Rightarrow> reverseEdges sk node n rset | None \<Rightarrow> {})
     \<union> (\<Union>(k, rset) \<in> set (DependentsByRef rmap).
         case map_of byKey k of Some n \<Rightarrow> forwardEdges sk node n rset | None \<Rightarrow> {})
     \<union> (\<Union>(k, rset) \<in> set (DependenciesByLabelSelector rmap).
         case map_of (ObjectLabelSelectors rmap) k of
           Some ols \<Rightarrow> (\<Union>n \<in> selected sk byUID ols. reverseEdges sk node n rset) | None \<Rightarrow> {})
     \<union> (\<Union>(k, rset) \<in> set (DependentsByLabelSelector rmap).
         case map_of (ObjectLabelSelectors rmap) k of
           Some ols \<Rightarrow> (\<Union>n \<in> selected sk byUID ols. forwardEdges sk node n rset) | None \<Rightarrow> {})
     \<union> (\<Union>(uid, rset) \<in> set (DependenciesByUID rmap).
         case map_of byUID uid of Some n \<Rightarrow> reverseEdges sk node n rset | None \<Rightarrow> {})
     \<union> (\<Union>(uid, rset) \<in> set (DependentsByUID rmap).
         case map_of byUID uid of Some n \<Rightarrow> forwardEdges sk node n rset | None \<Rightarrow> {})"

lemma grows_updateRelationships:
  assumes node: "node < length h" and byUID: "validPtrs byUID h" and byKey: "validPtrs byKey h"
  shows "grows h (relationshipEdges (skeleton h) byUID byKey node rmap)
           (updateRelationships it byUID byKey node rmap h)"
proof -
  define sk where "sk = skeleton h"
  have len: "length h'' = length h" if "skeleton h'' = sk" for h''
    by (rule skeleton_length) (simp add: that sk_def)
  have rev: "grows h' (reverseEdges sk node n rset) (addDependency it node n rset h')"
    if "skeleton h'' = sk" "n < length h''" "skeleton h' = skeleton h''" for n rset h' h''
  proof -
    have "grows h' (reverseEdges (skeleton h) node n rset) (addDependency it node n rset h')"
      using node that len [OF that(1)] by (intro grows_addDependency_from) (simp_all add: sk_def)
    then show ?thesis by (simp add: sk_def)
  qed
  have fwd: "grows h' (forwardEdges sk node n rset) (addDependent it node n rset h')"
    if "skeleton h'' = sk" "n < length h''" "skeleton h' = skeleton h''" for n rset h' h''
  proof -
    have "grows h' (forwardEdges (skeleton h) node n rset) (addDependent it node n rset h')"
      using node that len [OF that(1)] by (intro grows_addDependent_from) (simp_all add: sk_def)
    then show ?thesis by (simp add: sk_def)
  qed
  have key: "n < length h''" if "skeleton h'' = sk" "map_of byKey k = Some n" for k n h''
    using validPtrs_lookup [OF byKey that(2)] len [OF that(1)] by simp
  have uid: "n < length h''" if "skeleton h'' = sk" "map_of byUID k = Some n" for k n h''
    using validPtrs_lookup [OF byUID that(2)] len [OF that(1)] by simp
  have valid: "validPtrs byUID h''" if "skeleton h'' = sk" for h''
    using byUID len [OF that] by (simp add: validPtrs_def)

  define h1 where "h1 = foldl (\<lambda>h (k, rset).
                  case map_of byKey k of
                    Some n \<Rightarrow> addDependency it node n rset h
                  | None \<Rightarrow> h) h (rangeOver it (DependenciesByRef rmap))"
  define h2 where "h2 = foldl (\<lambda>h (k, rset).
                  case map_of byKey k of
                    Some n \<Rightarrow> addDependent it node n rset h
                  | None \<Rightarrow> h) h1 (rangeOver it (DependentsByRef rmap))"
  define h3 where "h3 = foldl (\<lambda>h (k, rset).
                  case map_of (ObjectLabelSelectors rmap) k of
                    Some ols \<Rightarrow> foldl (\<lambda>h n. addDependency it node n rset h) h
                                  (resolveSelectorToNodes it byUID h ols)
                  | None \<Rightarrow> h) h2 (rangeOver it (DependenciesByLabelSelector rmap))"
  define h4 where "h4 = foldl (\<lambda>h (k, rset).
                  case map_of (ObjectLabelSelectors rmap) k of
                    Some ols \<Rightarrow> foldl (\<lambda>h n. addDependent it node n rset h) h
                                  (resolveSelectorToNodes it byUID h ols)
                  | None \<Rightarrow> h) h3 (rangeOver it (DependentsByLabelSelector rmap))"
  define h5 where "h5 = foldl (\<lambda>h (uid, rset).
                  case map_of byUID uid of
                    Some n \<Rightarrow> addDependency it node n rset h
                  | None \<Rightarrow> h) h4 (rangeOver it (DependenciesByUID rmap))"
  define h6 where "h6 = foldl (\<lambda>h (uid, rset).
                  case map_of byUID uid of
                    Some n \<Rightarrow> addDependent it node n rset h
                  | None \<Rightarrow> h) h5 (rangeOver it (DependentsByUID rmap))"
  have s0: "skeleton h = sk" by (simp add: sk_def)
  have g1: "grows h (\<Union>(k, rset) \<in> set (DependenciesByRef rmap).
         case map_of byKey k of Some n \<Rightarrow> reverseEdges sk node n rset | None \<Rightarrow> {}) h1"
    unfolding h1_def
    by (rule grows_lookup_loop) (rule key [OF s0], assumption, rule rev [OF s0])
  then have s1: "skeleton h1 = sk" using s0 by (simp add: grows_def)
  have g2: "grows h1 (\<Union>(k, rset) \<in> set (DependentsByRef rmap).
         case map_of byKey k of Some n \<Rightarrow> forwardEdges sk node n rset | None \<Rightarrow> {}) h2"
    unfolding h2_def
    by (rule grows_lookup_loop) (rule key [OF s1], assumption, rule fwd [OF s1])
  then have s2: "skeleton h2 = sk" using s1 by (simp add: grows_def)
  have g3: "grows h2 (\<Union>(k, rset) \<in> set (DependenciesByLabelSelector rmap).
         case map_of (ObjectLabelSelectors rmap) k of
           Some ols \<Rightarrow> (\<Union>n \<in> selected sk byUID ols. reverseEdges sk node n rset) | None \<Rightarrow> {}) h3"
    unfolding h3_def s2 [symmetric]
    by (rule grows_selector_loop) (rule valid [OF s2], rule rev [OF s2, folded s2])
  then have s3: "skeleton h3 = sk" using s2 by (simp add: grows_def)
  have g4: "grows h3 (\<Union>(k, rset) \<in> set (DependentsByLabelSelector rmap).
         case map_of (ObjectLabelSelectors rmap) k of
           Some ols \<Rightarrow> (\<Union>n \<in> selected sk byUID ols. forwardEdges sk node n rset) | None \<Rightarrow> {}) h4"
    unfolding h4_def s3 [symmetric]
    by (rule grows_selector_loop) (rule valid [OF s3], rule fwd [OF s3, folded s3])
  then have s4: "skeleton h4 = sk" using s3 by (simp add: grows_def)
  have g5: "grows h4 (\<Union>(uid, rset) \<in> set (DependenciesByUID rmap).
         case map_of byUID uid of Some n \<Rightarrow> reverseEdges sk node n rset | None \<Rightarrow> {}) h5"
    unfolding h5_def
    by (rule grows_lookup_loop) (rule uid [OF s4], assumption, rule rev [OF s4])
  then have s5: "skeleton h5 = sk" using s4 by (simp add: grows_def)
  have g6: "grows h5 (\<Union>(uid, rset) \<in> set (DependentsByUID rmap).
         case map_of byUID uid of Some n \<Rightarrow> forwardEdges sk node n rset | None \<Rightarrow> {}) h6"
    unfolding h6_def
    by (rule grows_lookup_loop) (rule uid [OF s5], assumption, rule fwd [OF s5])
  have "grows h (relationshipEdges sk byUID byKey node rmap) h6"
    unfolding relationshipEdges_def
    by (intro grows_trans [OF _ g6] grows_trans [OF _ g5] grows_trans [OF _ g4]
          grows_trans [OF _ g3] grows_trans [OF _ g2] g1)
  moreover have "updateRelationships it byUID byKey node rmap h = h6"
    by (simp add: updateRelationships_def h1_def h2_def h3_def h4_def h5_def h6_def)
  ultimately show ?thesis by (simp add: sk_def)
qed

subsection \<open>The edges added for owner references\<close>

definition ownerReferenceEdges ::
    "'c Node list \<Rightarrow> (UID \<times> nat) list \<Rightarrow> nat \<Rightarrow> OwnerReference \<Rightarrow> (nat \<times> UID \<times> Relationship) set" where
  "ownerReferenceEdges sk byUID node ref =
     (case map_of byUID (RefUID ref) of
        None \<Rightarrow> {}
      | Some n \<Rightarrow>
          insert (n, UID (sk ! node), RelationshipOwnerRef)
            (if Controller ref = Some True then {(n, UID (sk ! node), RelationshipControllerRef)} else {}))"

definition ownerEdges :: "'c Node list \<Rightarrow> (UID \<times> nat) list \<Rightarrow> (nat \<times> UID \<times> Relationship) set" where
  "ownerEdges sk byUID =
     (\<Union>(uid, node) \<in> set byUID. \<Union>ref \<in> set (OwnerReferences (sk ! node)).
        ownerReferenceEdges sk byUID node ref)"

lemma grows_addOwnerReference:
  assumes "node < length h" "validPtrs byUID h"
  shows "grows h (ownerReferenceEdges (skeleton h) byUID node ref) (addOwnerReference byUID node h ref)"
proof (cases "map_of byUID (RefUID ref)")
  case None
  then show ?thesis by (simp add: ownerReferenceEdges_def addOwnerReference_def grows_refl)
next
  case (Some n)
  then have n: "n < length h" using assms(2) by (rule validPtrs_lookup [rotated])
  define u where "u = UID (skeleton h ! node)"
  have u: "UID (h ! node) = u" using assms(1) by (simp add: u_def skeleton_fields)
  have own: "grows h' {(n, u, RelationshipOwnerRef)} (AddDependentAt n (UID (h' ! node)) RelationshipOwnerRef h')"
    if "skeleton h' = skeleton h" for h'
  proof -
    have len: "length h' = length h" using that by (rule skeleton_length)
    then have "UID (h' ! node) = UID (skeleton h' ! node)" using assms(1) by (simp add: skeleton_fields)
    then have "UID (h' ! node) = u" by (simp add: that u_def)
    then show ?thesis using grows_AddDependentAt [of n h' u RelationshipOwnerRef] n len by simp
  qed
  show ?thesis
  proof (cases "Controller ref = Some True")
    case True
    have 1: "grows h {(n, u, RelationshipControllerRef)} (AddDependentAt n u RelationshipControllerRef h)"
      using n by (rule grows_AddDependentAt)
    from grows_trans [OF 1 own [OF grows_skeleton [OF 1]]]
    have "grows h {(n, u, RelationshipOwnerRef), (n, u, RelationshipControllerRef)}
       (AddDependentAt n (UID (AddDependentAt n u RelationshipControllerRef h ! node)) RelationshipOwnerRef
         (AddDependentAt n u RelationshipControllerRef h))"
      by (simp add: insert_commute)
    then show ?thesis
      using Some True by (simp add: ownerReferenceEdges_def addOwnerReference_def Let_def u flip: u_def)
  next
    case False
    then have "(if Controller ref \<noteq> None \<and> the (Controller ref)
                then AddDependentAt n (UID (h ! node)) RelationshipControllerRef h else h) = h"
      by (cases "Controller ref") auto
    then have "addOwnerReference byUID node h ref = AddDependentAt n (UID (h ! node)) RelationshipOwnerRef h"
      using Some by (simp add: addOwnerReference_def Let_def)
    moreover have "ownerReferenceEdges (skeleton h) byUID node ref = {(n, u, RelationshipOwnerRef)}"
      using Some False by (simp add: ownerReferenceEdges_def u_def)
    ultimately show ?thesis using own [of h] by simp
  qed
qed

lemma grows_populateOwnerReferences:
  assumes "validPtrs byUID h"
  shows "grows h (ownerEdges (skeleton h) byUID) (populateOwnerReferences it byUID h)"
  unfolding ownerEdges_def populateOwnerReferences_def
proof (rule grows_rangeOver, goal_cases)
  case (1 x h')
  note sk = 1(2)
  then have len: "length h' = length h" by (rule skeleton_length)
  obtain uid node where x: "x = (uid, node)" by (cases x)
  with 1(1) assms have node: "node < length h" by (auto dest: validPtrs_entry)
  then have refs: "OwnerReferences (h' ! node) = OwnerReferences (skeleton h ! node)"
    using len skeleton_fields(7) [of node h'] by (simp add: sk)
  have "grows h' (\<Union>ref \<in> set (OwnerReferences (h' ! node)). ownerReferenceEdges (skeleton h) byUID node ref)
     (foldl (addOwnerReference byUID node) h' (OwnerReferences (h' ! node)))"
  proof (rule grows_foldl)
    fix ref h'' assume sk': "skeleton h'' = skeleton h'"
    then have "length h'' = length h'" by (rule skeleton_length)
    then have "length h'' = length h" using len by simp
    then have "grows h'' (ownerReferenceEdges (skeleton h'') byUID node ref) (addOwnerReference byUID node h'' ref)"
      using node assms by (intro grows_addOwnerReference) (simp_all add: validPtrs_def)
    then show "grows h'' (ownerReferenceEdges (skeleton h) byUID node ref) (addOwnerReference byUID node h'' ref)"
      by (simp add: sk sk')
  qed
  then show ?case by (simp add: x refs)
qed

text \<open>Edges between allocated nodes whose dependent identifier is the \<open>UID\<close> of a node.\<close>

definition wellFormedEdges :: "'c Node list \<Rightarrow> (nat \<times> UID \<times> Relationship) set" where
  "wellFormedEdges sk = {(q, u, r). q < length sk \<and> u \<in> UID ` set sk}"

lemma reverseEdges_wellFormed:
  "node < length sk \<Longrightarrow> n < length sk \<Longrightarrow> reverseEdges sk node n rset \<subseteq> wellFormedEdges sk"
  by (auto simp: reverseEdges_def wellFormedEdges_def)

lemma forwardEdges_wellFormed:
  "node < length sk \<Longrightarrow> n < length sk \<Longrightarrow> forwardEdges sk node n rset \<subseteq> wellFormedEdges sk"
  by (auto simp: forwardEdges_def wellFormedEdges_def)

lemma selected_valid: "validPtrs byUID sk \<Longrightarrow> n \<in> selected sk byUID ols \<Longrightarrow> n < length sk"
  by (auto simp: selected_def validPtrs_def)

lemma relationshipEdges_wellFormed:
  assumes "node < length sk" "validPtrs byUID sk" "validPtrs byKey sk"
  shows "relationshipEdges sk byUID byKey node rmap \<subseteq> wellFormedEdges sk"
proof -
  have rev: "reverseEdges sk node n rset \<subseteq> wellFormedEdges sk" if "n < length sk" for n rset
    using assms(1) that by (rule reverseEdges_wellFormed)
  have fwd: "forwardEdges sk node n rset \<subseteq> wellFormedEdges sk" if "n < length sk" for n rset
    using assms(1) that by (rule forwardEdges_wellFormed)
  have 1: "(case map_of byKey k of Some n \<Rightarrow> reverseEdges sk node n rset | None \<Rightarrow> {}) \<subseteq> wellFormedEdges sk" for k rset
    using rev validPtrs_lookup [OF assms(3)] by (auto split: option.splits)
  have 2: "(case map_of byKey k of Some n \<Rightarrow> forwardEdges sk node n rset | None \<Rightarrow> {}) \<subseteq> wellFormedEdges sk" for k rset
    using fwd validPtrs_lookup [OF assms(3)] by (auto split: option.splits)
  have 3: "(case map_of sels k of Some ols \<Rightarrow> (\<Union>n \<in> selected sk byUID ols. reverseEdges sk node n rset) | None \<Rightarrow> {})
       \<subseteq> wellFormedEdges sk" for k rset and sels :: "(ObjectLabelSelectorKey \<times> ObjectLabelSelector) list"
    using rev selected_valid [OF assms(2)] by (auto split: option.splits)
  have 4: "(case map_of sels k of Some ols \<Rightarrow> (\<Union>n \<in> selected sk byUID ols. forwardEdges sk node n rset) | None \<Rightarrow> {})
       \<subseteq> wellFormedEdges sk" for k rset and sels :: "(ObjectLabelSelectorKey \<times> ObjectLabelSelector) list"
    using fwd selected_valid [OF assms(2)] by (auto split: option.splits)
  have 5: "(case map_of byUID k of Some n \<Rightarrow> reverseEdges sk node n rset | None \<Rightarrow> {}) \<subseteq> wellFormedEdges sk" for k rset
    using rev validPtrs_lookup [OF assms(2)] by (auto split: option.splits)
  have 6: "(case map_of byUID k of Some n \<Rightarrow> forwardEdges sk node n rset | None \<Rightarrow> {}) \<subseteq> wellFormedEdges sk" for k rset
    using fwd validPtrs_lookup [OF assms(2)] by (auto split: option.splits)
  show ?thesis
    unfolding relationshipEdges_def
    by (intro Un_least UN_least) (simp_all only: split_paired_all prod.case 1 2 3 4 5 6)
qed

lemma ownerEdges_wellFormed:
  assumes "validPtrs byUID sk"
  shows "ownerEdges sk byUID \<subseteq> wellFormedEdges sk"
proof -
  have "ownerReferenceEdges sk byUID node ref \<subseteq> wellFormedEdges sk" if "node < length sk" for node ref
    using that validPtrs_lookup [OF assms]
    by (auto simp: ownerReferenceEdges_def wellFormedEdges_def split: option.splits)
  then show ?thesis
    unfolding ownerEdges_def using validPtrs_entry [OF assms] by (intro UN_least) auto
qed

subsection \<open>The edges added through the extractors\<close>

lemma grows_foldl_within:
  assumes "\<And>x h'. x \<in> set xs \<Longrightarrow> skeleton h' = skeleton h \<Longrightarrow> \<exists>T. T \<subseteq> W \<and> grows h' T (step h' x)"
  shows "\<exists>T. T \<subseteq> W \<and> grows h T (foldl step h xs)"
  using assms
proof (induction xs arbitrary: h)
  case Nil
  have "{} \<subseteq> W \<and> grows h {} h" by (simp add: grows_refl)
  then show ?case by auto
next
  case (Cons x xs)
  have "\<exists>T. T \<subseteq> W \<and> grows h T (step h x)" by (rule Cons.prems) simp_all
  then obtain T where T: "T \<subseteq> W" "grows h T (step h x)" by auto
  have "\<exists>T. T \<subseteq> W \<and> grows (step h x) T (foldl step (step h x) xs)"
  proof (rule Cons.IH)
    fix y h' assume "y \<in> set xs" "skeleton h' = skeleton (step h x)"
    then show "\<exists>T. T \<subseteq> W \<and> grows h' T (step h' y)"
      using grows_skeleton [OF T(2)] by (intro Cons.prems) simp_all
  qed
  then obtain T' where T': "T' \<subseteq> W" "grows (step h x) T' (foldl step (step h x) xs)" by auto
  from T(1) T'(1) grows_trans [OF T(2) T'(2)]
  have "T \<union> T' \<subseteq> W \<and> grows h (T \<union> T') (foldl step h (x # xs))" by simp
  then show ?case by blast
qed

text \<open>Modelled from the spec: the per-kind extractors are defined outside graph.go. The
  specification describes them as pure functions that receive the node read-only and
  translate the fields of one object into relationship declarations; \<open>pureExtractors\<close> says
  that their result does not depend on the \<open>Dependents\<close> map, the only part of a node that
  \<open>ResolveDependents\<close> changes.\<close>

definition pureExtractors :: "'c extractors \<Rightarrow> bool" where
  "pureExtractors getRelationships \<longleftrightarrow>
     (\<forall>k n d. getRelationships k (n\<lparr>Dependents := d\<rparr>) = getRelationships k n)"

definition extractedEdges ::
    "'c Node list \<Rightarrow> 'c extractors \<Rightarrow> (UID \<times> nat) list \<Rightarrow> (ObjectReferenceKey \<times> nat) list
      \<Rightarrow> (nat \<times> UID \<times> Relationship) set" where
  "extractedEdges sk getRelationships byUID byKey =
     (\<Union>(uid, node) \<in> set byUID.
        case dispatch (sk ! node) of
          None \<Rightarrow> {}
        | Some k \<Rightarrow>
            (case getRelationships k (sk ! node) of
               Inl err \<Rightarrow> {}
             | Inr rmap \<Rightarrow> relationshipEdges sk byUID byKey node rmap))"

lemma dispatch_Dependents: "dispatch (n\<lparr>Dependents := d\<rparr>) = dispatch n"
  by (simp add: dispatch_def)

lemma dispatch_skeleton: "p < length h \<Longrightarrow> dispatch (skeleton h ! p) = dispatch (h ! p)"
  by (simp add: skeleton_nth dispatch_Dependents)

lemma grows_populateRelationships:
  assumes "validPtrs byUID h" "validPtrs byKey h" "pureExtractors getRelationships"
  shows "grows h (extractedEdges (skeleton h) getRelationships byUID byKey)
           (populateRelationships it getRelationships byUID byKey h)"
  unfolding extractedEdges_def populateRelationships_def
proof (rule grows_rangeOver, goal_cases)
  case (1 x h')
  note sk = 1(2)
  then have len: "length h' = length h" by (rule skeleton_length)
  obtain uid node where x: "x = (uid, node)" by (cases x)
  with 1(1) assms(1) have node: "node < length h'" using len by (auto dest: validPtrs_entry)
  have d: "dispatch (h' ! node) = dispatch (skeleton h ! node)"
    using dispatch_skeleton [OF node] by (simp add: sk)
  have "h' ! node = (skeleton h' ! node)\<lparr>Dependents := Dependents (h' ! node)\<rparr>"
    using node by (rule node_from_skeleton)
  then have "getRelationships k (h' ! node) = getRelationships k (skeleton h' ! node)" for k
    using assms(3) unfolding pureExtractors_def by metis
  then have e: "getRelationships k (h' ! node) = getRelationships k (skeleton h ! node)" for k
    by (simp add: sk)
  have u: "grows h' (relationshipEdges (skeleton h) byUID byKey node rmap)
            (updateRelationships it byUID byKey node rmap h')" for rmap
    using grows_updateRelationships [of node h' byUID byKey rmap it] node assms(1,2) len
    by (simp add: validPtrs_def sk)
  show ?case
    by (simp add: x d e u grows_refl split: option.splits sum.splits)
qed

lemma populateRelationships_wellFormed:
  assumes "validPtrs byUID h" "validPtrs byKey h"
  shows "\<exists>T. T \<subseteq> wellFormedEdges (skeleton h)
           \<and> grows h T (populateRelationships it getRelationships byUID byKey h)"
  unfolding populateRelationships_def
proof (rule grows_foldl_within, goal_cases)
  case (1 x h')
  note sk = 1(2)
  then have len: "length h' = length h" by (rule skeleton_length)
  obtain uid node where x: "x = (uid, node)" by (cases x)
  with 1(1) assms(1) have node: "node < length h'" using len by (auto simp: set_rangeOver dest: validPtrs_entry)
  have none: "\<exists>T. T \<subseteq> wellFormedEdges (skeleton h) \<and> grows h' T h'"
    using grows_refl [of h'] by blast
  have u: "\<exists>T. T \<subseteq> wellFormedEdges (skeleton h) \<and> grows h' T (updateRelationships it byUID byKey node rmap h')"
    for rmap
  proof -
    have "grows h' (relationshipEdges (skeleton h) byUID byKey node rmap)
            (updateRelationships it byUID byKey node rmap h')"
      using grows_updateRelationships [of node h' byUID byKey rmap it] node assms len
      by (simp add: validPtrs_def sk)
    moreover have "relationshipEdges (skeleton h) byUID byKey node rmap \<subseteq> wellFormedEdges (skeleton h)"
      using node len assms by (intro relationshipEdges_wellFormed) (simp_all add: validPtrs_def)
    ultimately show ?thesis by blast
  qed
  show ?case
    using none u by (simp add: x split: option.splits sum.splits)
qed

section \<open>The resolved graph\<close>

lemma resolveGraph_globalMapByUID:
  "globalMapByUID (resolveGraph it getRelationships objects) = globalMapByUID (buildGlobalMaps objects)"
  by (simp add: resolveGraph_def Let_def)

lemma resolveGraph_globalMapByKey:
  "globalMapByKey (resolveGraph it getRelationships objects) = globalMapByKey (buildGlobalMaps objects)"
  by (simp add: resolveGraph_def Let_def)

lemma validPtrs_buildGlobalMaps:
  "validPtrs (globalMapByUID (buildGlobalMaps objects)) (map newNode objects)"
  "validPtrs (globalMapByKey (buildGlobalMaps objects)) (map newNode objects)"
proof -
  have "p < length objects" if "(k, p) \<in> set (globalMapByUID (buildGlobalMaps objects))" for k p
  proof -
    from that have "map_of (globalMapByUID (buildGlobalMaps objects)) k = Some p"
      by (simp add: distinct_buildGlobalMaps)
    then show ?thesis by (simp add: byUID_buildGlobalMaps_origin)
  qed
  then show "validPtrs (globalMapByUID (buildGlobalMaps objects)) (map newNode objects)"
    by (auto simp: validPtrs_def)
  have "p < length objects" if "(k, p) \<in> set (globalMapByKey (buildGlobalMaps objects))" for k p
  proof -
    from that have "map_of (globalMapByKey (buildGlobalMaps objects)) k = Some p"
      by (simp add: distinct_buildGlobalMaps)
    then show ?thesis by (rule byKey_buildGlobalMaps_bound)
  qed
  then show "validPtrs (globalMapByKey (buildGlobalMaps objects)) (map newNode objects)"
    by (auto simp: validPtrs_def)
qed

lemma skeleton_newNodes: "skeleton (map newNode objects) = map newNode objects"
  by (simp add: skeleton_def newNode_def)

lemma edges_newNodes: "edges (map newNode objects) = {}"
  by (auto simp: edges_def labels_def newNode_def)

lemma inhabited_newNodes: "inhabited (map newNode objects)"
  by (auto simp: inhabited_def newNode_def)

lemma resolveGraph_grows:
  "\<exists>T. T \<subseteq> wellFormedEdges (map newNode objects)
     \<and> grows (map newNode objects)
          (ownerEdges (map newNode objects) (globalMapByUID (buildGlobalMaps objects)) \<union> T)
          (nodes (resolveGraph it getRelationships objects))"
proof -
  define byUID where "byUID = globalMapByUID (buildGlobalMaps objects)"
  define byKey where "byKey = globalMapByKey (buildGlobalMaps objects)"
  define h0 where "h0 = map newNode objects"
  define h1 where "h1 = populateOwnerReferences it byUID h0"
  have v0: "validPtrs byUID h0" "validPtrs byKey h0"
    unfolding byUID_def byKey_def h0_def by (rule validPtrs_buildGlobalMaps)+
  have sk0: "skeleton h0 = h0" unfolding h0_def by (rule skeleton_newNodes)
  have g1: "grows h0 (ownerEdges h0 byUID) h1"
    using grows_populateOwnerReferences [OF v0(1), of it] by (simp add: h1_def sk0)
  then have sk1: "skeleton h1 = h0" using sk0 by (simp add: grows_def)
  have len1: "length h1 = length h0" using g1 by (rule grows_length)
  have v1: "validPtrs byUID h1" "validPtrs byKey h1"
    using v0 len1 by (simp_all add: validPtrs_def)
  obtain T where T: "T \<subseteq> wellFormedEdges h0"
      "grows h1 T (populateRelationships it getRelationships byUID byKey h1)"
    using populateRelationships_wellFormed [OF v1, of it getRelationships] by (auto simp: sk1)
  have "grows h0 (ownerEdges h0 byUID \<union> T) (populateRelationships it getRelationships byUID byKey h1)"
    using g1 T(2) by (rule grows_trans)
  moreover have "nodes (resolveGraph it getRelationships objects)
      = populateRelationships it getRelationships byUID byKey h1"
    by (simp add: resolveGraph_def Let_def h1_def h0_def byUID_def byKey_def nodes_buildGlobalMaps)
  ultimately show ?thesis using T(1) unfolding h0_def byUID_def by auto
qed

lemma resolveGraph_grows_pure:
  assumes "pureExtractors getRelationships"
  shows "grows (map newNode objects)
          (ownerEdges (map newNode objects) (globalMapByUID (buildGlobalMaps objects))
            \<union> extractedEdges (map newNode objects) getRelationships
                (globalMapByUID (buildGlobalMaps objects)) (globalMapByKey (buildGlobalMaps objects)))
          (nodes (resolveGraph it getRelationships objects))"
proof -
  define byUID where "byUID = globalMapByUID (buildGlobalMaps objects)"
  define byKey where "byKey = globalMapByKey (buildGlobalMaps objects)"
  define h0 where "h0 = map newNode objects"
  define h1 where "h1 = populateOwnerReferences it byUID h0"
  have v0: "validPtrs byUID h0" "validPtrs byKey h0"
    unfolding byUID_def byKey_def h0_def by (rule validPtrs_buildGlobalMaps)+
  have sk0: "skeleton h0 = h0" unfolding h0_def by (rule skeleton_newNodes)
  have g1: "grows h0 (ownerEdges h0 byUID) h1"
    using grows_populateOwnerReferences [OF v0(1), of it] by (simp add: h1_def sk0)
  then have sk1: "skeleton h1 = h0" using sk0 by (simp add: grows_def)
  have len1: "length h1 = length h0" using g1 by (rule grows_length)
  have v1: "validPtrs byUID h1" "validPtrs byKey h1"
    using v0 len1 by (simp_all add: validPtrs_def)
  have "grows h1 (extractedEdges h0 getRelationships byUID byKey)
          (populateRelationships it getRelationships byUID byKey h1)"
    using grows_populateRelationships [OF v1 assms, of it] by (simp add: sk1)
  with g1 have "grows h0 (ownerEdges h0 byUID \<union> extractedEdges h0 getRelationships byUID byKey)
      (populateRelationships it getRelationships byUID byKey h1)"
    by (rule grows_trans)
  moreover have "nodes (resolveGraph it getRelationships objects)
      = populateRelationships it getRelationships byUID byKey h1"
    by (simp add: resolveGraph_def Let_def h1_def h0_def byUID_def byKey_def nodes_buildGlobalMaps)
  ultimately show ?thesis unfolding h0_def byUID_def byKey_def by simp
qed

text \<open>Consequences for the store of the resolved graph.\<close>

lemma resolveGraph_skeleton:
  "skeleton (nodes (resolveGraph it getRelationships objects)) = map newNode objects"
  using resolveGraph_grows [of objects it getRelationships] by (auto simp: grows_def skeleton_newNodes)

lemma resolveGraph_length:
  "length (nodes (resolveGraph it getRelationships objects)) = length objects"
  using resolveGraph_grows [of objects it getRelationships] by (auto dest: grows_length)

lemma resolveGraph_inhabited:
  "inhabited (nodes (resolveGraph it getRelationships objects))"
  using resolveGraph_grows [of objects it getRelationships] by (auto simp: grows_def inhabited_newNodes)

lemma resolveGraph_edges_wellFormed:
  "edges (nodes (resolveGraph it getRelationships objects)) \<subseteq> wellFormedEdges (map newNode objects)"
proof -
  obtain T where T: "T \<subseteq> wellFormedEdges (map newNode objects)"
    "edges (nodes (resolveGraph it getRelationships objects))
      = ownerEdges (map newNode objects) (globalMapByUID (buildGlobalMaps objects)) \<union> T"
    using resolveGraph_grows [of objects it getRelationships] by (auto simp: grows_def edges_newNodes)
  moreover have "ownerEdges (map newNode objects) (globalMapByUID (buildGlobalMaps objects))
      \<subseteq> wellFormedEdges (map newNode objects)"
    by (rule ownerEdges_wellFormed) (rule validPtrs_buildGlobalMaps)
  ultimately show ?thesis by simp
qed

lemma resolveGraph_ownerEdges:
  "ownerEdges (map newNode objects) (globalMapByUID (buildGlobalMaps objects))
     \<subseteq> edges (nodes (resolveGraph it getRelationships objects))"
  using resolveGraph_grows [of objects it getRelationships] by (auto simp: grows_def edges_newNodes)

lemma resolveGraph_node:
  assumes "p < length objects"
  shows "nodes (resolveGraph it getRelationships objects) ! p
           = (newNode (objects ! p))\<lparr>Dependents := Dependents (nodes (resolveGraph it getRelationships objects) ! p)\<rparr>"
  using node_from_skeleton [of p "nodes (resolveGraph it getRelationships objects)"] assms
  by (simp add: resolveGraph_skeleton resolveGraph_length)

lemma keys_iff_edges:
  assumes "inhabited h" "q < length h"
  shows "u \<in> fst ` set (Dependents (h ! q)) \<longleftrightarrow> (\<exists>r. (q, u, r) \<in> edges h)"
proof
  assume "u \<in> fst ` set (Dependents (h ! q))"
  then have "u \<in> dom (map_of (Dependents (h ! q)))" by (simp add: dom_map_of_conv_image_fst)
  then obtain rs where rs: "map_of (Dependents (h ! q)) u = Some rs" by auto
  moreover have "h ! q \<in> set h" using assms(2) by simp
  ultimately have "rs \<noteq> []" using assms(1) by (auto simp: inhabited_def)
  then obtain r where "r \<in> set rs" by (cases rs) auto
  with rs assms(2) have "(q, u, r) \<in> edges h" by (simp add: edges_def labels_def)
  then show "\<exists>r. (q, u, r) \<in> edges h" ..
next
  assume "\<exists>r. (q, u, r) \<in> edges h"
  then obtain r where "r \<in> labels (h ! q) u" by (auto simp: edges_def)
  then have "u \<in> dom (map_of (Dependents (h ! q)))"
    by (auto simp: labels_def split: option.splits)
  then show "u \<in> fst ` set (Dependents (h ! q))" by (simp add: dom_map_of_conv_image_fst)
qed

lemma resolveGraph_keys_are_UIDs:
  assumes "q < length objects" "u \<in> fst ` set (Dependents (nodes (resolveGraph it getRelationships objects) ! q))"
  shows "u \<in> GetUID ` set objects"
proof -
  from assms obtain r where "(q, u, r) \<in> edges (nodes (resolveGraph it getRelationships objects))"
    using keys_iff_edges [OF resolveGraph_inhabited [of it getRelationships objects], of q u]
    by (auto simp: resolveGraph_length)
  with resolveGraph_edges_wellFormed have "(q, u, r) \<in> wellFormedEdges (map newNode objects)" by blast
  then show ?thesis by (auto simp: wellFormedEdges_def newNode_def)
qed

section \<open>The result of ResolveDependents\<close>

lemma ResolveDependents_unresolved:
  assumes "map_of (globalMapByUID (buildGlobalMaps objects)) rootUID = None"
  shows "ResolveDependents it getRelationships objects rootUID = []"
  using assms by (simp add: ResolveDependents_def Let_def resolveGraph_globalMapByUID)

lemma ResolveDependents_resolved:
  assumes "map_of (globalMapByUID (buildGlobalMaps objects)) rootUID = Some p"
  shows "ResolveDependents it getRelationships objects rootUID
           = map (\<lambda>(uid, ptr). (uid, map_option (\<lambda>p. nodes (resolveGraph it getRelationships objects) ! p) ptr))
               (traverse it (globalMapByUID (buildGlobalMaps objects))
                  (nodes (resolveGraph it getRelationships objects)) [(rootUID, Some p)] [rootUID] {})"
  using assms by (simp add: ResolveDependents_def Let_def resolveGraph_globalMapByUID)

lemma traverse_from_root:
  assumes "map_of byUID rootUID = Some p"
  shows "traversed byUID h [(rootUID, Some p)] (traverse it byUID h [(rootUID, Some p)] [rootUID] {})"
  by (rule traverse_invariant) (use assms in \<open>auto split: if_splits\<close>)

lemma fst_set_map_values: "fst ` set (map (\<lambda>(k, v). (k, f v)) xs) = fst ` set xs"
  by force

lemma map_fst_map_values: "map fst (map (\<lambda>(k, v). (k, f v)) xs) = map fst xs"
  by (induction xs) auto

lemma map_of_map_values: "map_of (map (\<lambda>(k, v). (k, f v)) xs) k = map_option f (map_of xs k)"
  by (induction xs) auto

text \<open>The keys of the result, for a root that resolves.\<close>

lemma ResolveDependents_keys:
  assumes "map_of (globalMapByUID (buildGlobalMaps objects)) rootUID = Some p"
  shows "fst ` set (ResolveDependents it getRelationships objects rootUID)
           = (dependentEdges (globalMapByUID (buildGlobalMaps objects))
                (nodes (resolveGraph it getRelationships objects)))\<^sup>* `` {rootUID}"
proof -
  have "fst ` set (ResolveDependents it getRelationships objects rootUID)
      = dom (map_of (traverse it (globalMapByUID (buildGlobalMaps objects))
                  (nodes (resolveGraph it getRelationships objects)) [(rootUID, Some p)] [rootUID] {}))"
    by (simp only: ResolveDependents_resolved [OF assms] fst_set_map_values dom_map_of_conv_image_fst)
  also have "\<dots> = (dependentEdges (globalMapByUID (buildGlobalMaps objects))
                (nodes (resolveGraph it getRelationships objects)))\<^sup>* `` dom (map_of [(rootUID, Some p)])"
    by (rule traversed_dom) (rule traverse_from_root [OF assms])
  finally show ?thesis by simp
qed

lemma ResolveDependents_distinct:
  "distinct (map fst (ResolveDependents it getRelationships objects rootUID))"
proof (cases "map_of (globalMapByUID (buildGlobalMaps objects)) rootUID")
  case None
  then show ?thesis by (simp add: ResolveDependents_unresolved)
next
  case (Some p)
  show ?thesis
    by (simp only: ResolveDependents_resolved [OF Some] map_fst_map_values)
       (rule traverse_distinct, simp)
qed

lemma ResolveDependents_value:
  assumes "map_of (globalMapByUID (buildGlobalMaps objects)) rootUID = Some p"
    and "u \<in> fst ` set (ResolveDependents it getRelationships objects rootUID)"
  shows "map_of (ResolveDependents it getRelationships objects rootUID) u
           = Some (map_option (\<lambda>q. nodes (resolveGraph it getRelationships objects) ! q)
                     (map_of (globalMapByUID (buildGlobalMaps objects)) u))"
proof -
  define R where "R = traverse it (globalMapByUID (buildGlobalMaps objects))
                  (nodes (resolveGraph it getRelationships objects)) [(rootUID, Some p)] [rootUID] {}"
  have t: "traversed (globalMapByUID (buildGlobalMaps objects))
             (nodes (resolveGraph it getRelationships objects)) [(rootUID, Some p)] R"
    unfolding R_def by (rule traverse_from_root [OF assms(1)])
  have eq: "ResolveDependents it getRelationships objects rootUID
      = map (\<lambda>(uid, ptr). (uid, map_option (\<lambda>p. nodes (resolveGraph it getRelationships objects) ! p) ptr)) R"
    unfolding R_def by (rule ResolveDependents_resolved [OF assms(1)])
  from assms(2) have "u \<in> dom (map_of R)"
    by (simp only: eq fst_set_map_values dom_map_of_conv_image_fst)
  then obtain v where v: "map_of R u = Some v" by auto
  with t have "v = map_of (globalMapByUID (buildGlobalMaps objects)) u"
    by (simp add: traversed_def)
  with v show ?thesis by (simp add: eq map_of_map_values)
qed

text \<open>Every identifier that the traversal can reach resolves in the global map.\<close>

lemma reachable_resolves:
  assumes "map_of (globalMapByUID (buildGlobalMaps objects)) rootUID = Some p"
    and "(rootUID, u) \<in> (dependentEdges (globalMapByUID (buildGlobalMaps objects))
                (nodes (resolveGraph it getRelationships objects)))\<^sup>*"
  shows "u = rootUID \<or> u \<in> GetUID ` set objects"
  using assms(2)
proof (cases rule: rtrancl.cases)
  case rtrancl_refl
  then show ?thesis by simp
next
  case (rtrancl_into_rtrancl x)
  then have "u \<in> dependentsOf (globalMapByUID (buildGlobalMaps objects))
                (nodes (resolveGraph it getRelationships objects)) x"
    by (simp add: dependentEdges_def)
  then obtain q where q: "map_of (globalMapByUID (buildGlobalMaps objects)) x = Some q"
      "u \<in> fst ` set (Dependents (nodes (resolveGraph it getRelationships objects) ! q))"
    by (auto simp: dependentsOf_def split: option.splits)
  from q(1) have "q < length objects" by (simp add: byUID_buildGlobalMaps_origin)
  then have "u \<in> GetUID ` set objects" using q(2) by (rule resolveGraph_keys_are_UIDs)
  then show ?thesis ..
qed

lemma ResolveDependents_key_origin:
  assumes "u \<in> fst ` set (ResolveDependents it getRelationships objects rootUID)"
  shows "u \<in> GetUID ` set objects \<or> (u = rootUID \<and> rootUID \<in> (\<Union>obj \<in> set objects. indexKeys obj))"
proof (cases "map_of (globalMapByUID (buildGlobalMaps objects)) rootUID")
  case None
  with assms show ?thesis by (simp add: ResolveDependents_unresolved)
next
  case (Some p)
  then have "rootUID \<in> dom (map_of (globalMapByUID (buildGlobalMaps objects)))" by auto
  then have root: "rootUID \<in> (\<Union>obj \<in> set objects. indexKeys obj)"
    by (simp only: dom_byUID_buildGlobalMaps)
  from assms have "(rootUID, u) \<in> (dependentEdges (globalMapByUID (buildGlobalMaps objects))
                (nodes (resolveGraph it getRelationships objects)))\<^sup>*"
    by (simp add: ResolveDependents_keys [OF Some])
  from reachable_resolves [OF Some this] root show ?thesis by auto
qed

lemma ResolveDependents_node:
  assumes "map_of (globalMapByUID (buildGlobalMaps objects)) rootUID = Some p"
    and "u \<in> fst ` set (ResolveDependents it getRelationships objects rootUID)"
  shows "\<exists>q. map_of (globalMapByUID (buildGlobalMaps objects)) u = Some q \<and> q < length objects
           \<and> map_of (ResolveDependents it getRelationships objects rootUID) u
               = Some (Some (nodes (resolveGraph it getRelationships objects) ! q))"
proof -
  have "GetUID obj \<in> indexKeys obj" for obj :: "'a Unstructured"
    by (simp add: indexKeys_def)
  with ResolveDependents_key_origin [OF assms(2)]
  have "u \<in> (\<Union>obj \<in> set objects. indexKeys obj)" by blast
  then have "u \<in> dom (map_of (globalMapByUID (buildGlobalMaps objects)))"
    by (simp only: dom_byUID_buildGlobalMaps)
  then obtain q where q: "map_of (globalMapByUID (buildGlobalMaps objects)) u = Some q" by auto
  then have "q < length objects" by (simp add: byUID_buildGlobalMaps_origin)
  with q ResolveDependents_value [OF assms] show ?thesis by simp
qed

section \<open>Example inputs\<close>

text \<open>\<open>newRelationshipMap\<close> (graph.go, lines 84-94): the seven maps are empty.\<close>

definition newRelationshipMap :: RelationshipMap where
  "newRelationshipMap =
     \<lparr>DependenciesByLabelSelector = [], DependenciesByRef = [], DependenciesByUID = [],
      DependentsByLabelSelector = [], DependentsByRef = [], DependentsByUID = [],
      ObjectLabelSelectors = []\<rparr>"

text \<open>Objects of the examples carry no payload; \<open>noRelationships\<close> is an extractor that
  declares nothing for every object.\<close>

definition exampleObject ::
    "UID \<Rightarrow> string \<Rightarrow> string \<Rightarrow> string \<Rightarrow> LabelSet \<Rightarrow> OwnerReference list \<Rightarrow> unit Unstructured" where
  "exampleObject uid grp knd nm lbls refs =
     \<lparr>GetUID = uid, GvkGroup = grp, GvkKind = knd, GetNamespace = ''default'', GetName = nm,
      GetLabels = lbls, GetOwnerReferences = refs, UnstructuredContent = ()\<rparr>"

definition noRelationships :: "unit extractors" where
  "noRelationships k node = Inr newRelationshipMap"

definition deploymentScenario :: "unit Unstructured list" where
  "deploymentScenario =
     [exampleObject ''d'' ''apps'' ''Deployment'' ''D'' [] [],
      exampleObject ''r'' ''apps'' ''ReplicaSet'' ''R'' [] [\<lparr>RefUID = ''d'', Controller = Some True\<rparr>],
      exampleObject ''p'' [] ''Pod'' ''P'' [] [\<lparr>RefUID = ''r'', Controller = Some True\<rparr>]]"

definition clusterNode :: "unit Unstructured" where
  "clusterNode = exampleObject ''u1'' [] ''Node'' ''node-1'' [(''kubernetes.io/hostname'', ''host-1'')] []"

section \<open>The traversal result\<close>

text \<open>The nodes held by a \<open>NodeMap\<close>. In the source the values of the map are pointers, and
  a key holds the pointer that \<open>globalMapByUID\<close> has for it (line 448, and line 428 for the
  root); \<open>resultNodes\<close> collects these pointers, so that a node held under two keys is
  counted once.\<close>

definition resultNodes :: "(UID \<times> nat) list \<Rightarrow> (UID \<times> 'a) list \<Rightarrow> nat set" where
  "resultNodes byUID result = set (List.map_filter (map_of byUID) (map fst result))"

lemma resultNodes_iff:
  "q \<in> resultNodes byUID result \<longleftrightarrow> (\<exists>u \<in> fst ` set result. map_of byUID u = Some q)"
  by (force simp: resultNodes_def map_filter_def)

lemma resultNodes_image:
  assumes "\<And>u. u \<in> fst ` set result \<Longrightarrow> \<exists>q. map_of byUID u = Some q"
  shows "resultNodes byUID result = (\<lambda>u. the (map_of byUID u)) ` fst ` set result"
proof (rule set_eqI)
  fix q
  show "q \<in> resultNodes byUID result \<longleftrightarrow> q \<in> (\<lambda>u. the (map_of byUID u)) ` fst ` set result"
  proof
    assume "q \<in> resultNodes byUID result"
    then obtain u where "u \<in> fst ` set result" "map_of byUID u = Some q"
      unfolding resultNodes_iff by blast
    then show "q \<in> (\<lambda>u. the (map_of byUID u)) ` fst ` set result" by force
  next
    assume "q \<in> (\<lambda>u. the (map_of byUID u)) ` fst ` set result"
    then obtain u where u: "u \<in> fst ` set result" "q = the (map_of byUID u)" by blast
    from assms [OF u(1)] u(2) have "map_of byUID u = Some q" by auto
    with u(1) show "q \<in> resultNodes byUID result" unfolding resultNodes_iff by blast
  qed
qed

lemma inj_on_the:
  assumes "\<And>u. u \<in> K \<Longrightarrow> \<exists>q. m u = Some q"
  shows "inj_on (\<lambda>u. the (m u)) K \<longleftrightarrow> inj_on m K"
proof
  assume "inj_on (\<lambda>u. the (m u)) K"
  then show "inj_on m K" by (auto simp: inj_on_def)
next
  assume inj: "inj_on m K"
  show "inj_on (\<lambda>u. the (m u)) K"
  proof (rule inj_onI)
    fix u v assume uv: "u \<in> K" "v \<in> K" "the (m u) = the (m v)"
    from assms [OF uv(1)] assms [OF uv(2)] uv(3) have "m u = m v" by auto
    with inj uv(1,2) show "u = v" by (auto simp: inj_on_def)
  qed
qed

text \<open>The number of nodes other than the root's node, against the number of keys.\<close>

lemma dependents_count:
  assumes dist: "distinct (map fst result)"
    and resolves: "\<And>u. u \<in> fst ` set result \<Longrightarrow> \<exists>q. map_of byUID u = Some q"
    and root: "rootUID \<in> fst ` set result" "map_of byUID rootUID = Some p"
  shows "card (resultNodes byUID result - {p}) \<le> length result - 1"
    and "card (resultNodes byUID result - {p}) = length result - 1
           \<longleftrightarrow> inj_on (map_of byUID) (fst ` set result)"
proof -
  let ?K = "fst ` set result"
  let ?f = "\<lambda>u. the (map_of byUID u)"
  have img: "resultNodes byUID result = ?f ` ?K"
    using resolves by (rule resultNodes_image)
  have fin: "finite ?K" by simp
  have keys: "card ?K = length result"
    using distinct_card [OF dist] by simp
  have p: "p \<in> ?f ` ?K"
    using root by force
  then have pos: "0 < card (?f ` ?K)"
    using fin by (auto simp: card_gt_0_iff)
  have le: "card (?f ` ?K) \<le> length result"
    using card_image_le [OF fin, of ?f] keys by simp
  have minus: "card (?f ` ?K - {p}) = card (?f ` ?K) - 1"
    using p fin by simp
  show "card (resultNodes byUID result - {p}) \<le> length result - 1"
    unfolding img minus using le by simp
  have "card (?f ` ?K - {p}) = length result - 1 \<longleftrightarrow> card (?f ` ?K) = card ?K"
    unfolding minus keys using pos le by arith
  also have "\<dots> \<longleftrightarrow> inj_on ?f ?K"
    using inj_on_iff_eq_card [OF fin, of ?f] by simp
  also have "\<dots> \<longleftrightarrow> inj_on (map_of byUID) ?K"
    using resolves by (rule inj_on_the)
  finally show "card (resultNodes byUID result - {p}) = length result - 1
           \<longleftrightarrow> inj_on (map_of byUID) (fst ` set result)"
    unfolding img .
qed

text \<open>No name or hostname label of a Node object is the identifier of another object: of
  the keys under which an object is filed (\<open>indexKeys\<close>), only its own identifier is the
  identifier of an object.\<close>

definition unaliased :: "'c Unstructured list \<Rightarrow> bool" where
  "unaliased objects \<longleftrightarrow>
     (\<forall>obj \<in> set objects. indexKeys obj \<inter> GetUID ` set objects \<subseteq> {GetUID obj})"

text \<open>When the root is the identifier of an object and the collection is \<open>unaliased\<close>, every
  key of the result is the identifier of the object it resolves to, so no two keys hold
  the same node.\<close>

lemma ResolveDependents_keys_injective:
  assumes root: "rootUID \<in> GetUID ` set objects"
    and aliases: "unaliased objects"
  shows "inj_on (map_of (globalMapByUID (buildGlobalMaps objects)))
           (fst ` set (ResolveDependents it getRelationships objects rootUID))"
proof (rule inj_onI)
  let ?m = "map_of (globalMapByUID (buildGlobalMaps objects))"
  let ?K = "fst ` set (ResolveDependents it getRelationships objects rootUID)"
  obtain p where p: "?m rootUID = Some p"
    using GetUID_indexed [of _ objects] root by blast
  have own: "?m u = Some q \<Longrightarrow> u = GetUID (objects ! q)" if "u \<in> ?K" for u q
  proof -
    assume m: "?m u = Some q"
    from ResolveDependents_key_origin [OF that] root have uid: "u \<in> GetUID ` set objects" by blast
    from byUID_buildGlobalMaps_origin [OF m] have q: "q < length objects" "u \<in> indexKeys (objects ! q)"
      by simp_all
    from q(1) have "objects ! q \<in> set objects" by simp
    with aliases have "indexKeys (objects ! q) \<inter> GetUID ` set objects \<subseteq> {GetUID (objects ! q)}"
      unfolding unaliased_def by blast
    with q(2) uid show ?thesis by blast
  qed
  fix u v assume uv: "u \<in> ?K" "v \<in> ?K" "?m u = ?m v"
  from ResolveDependents_node [OF p uv(1)] obtain q where q: "?m u = Some q" by blast
  with uv(3) have "?m v = Some q" by simp
  from own [OF uv(1) q] own [OF uv(2) this] show "u = v" by simp
qed

text \<open>
  C1 (as amended). For every input collection and every root identifier that resolves in
  the global by-identifier index, the keys of the returned \<open>NodeMap\<close> are exactly the root
  and every identifier reachable from it along \<open>Dependents\<close> edges (an edge leads from an
  identifier to each key of the \<open>Dependents\<close> map of the node that the identifier resolves
  to), every key holds the node it resolves to, and the keys are distinct. The dependents
  are the nodes of the result other than the node of the root. Their number is at most
  the size of the result minus one, and it is the size minus one exactly when no two keys
  of the result hold the same node; this is the case when the root is the identifier of an
  input object and no name or hostname label of a Node object is the identifier of another
  object (\<open>unaliased\<close>).
\<close>

theorem ResolveDependents_reachable:
  fixes it :: iteration and getRelationships :: "'c extractors" and objects rootUID and p :: nat
  defines "g \<equiv> resolveGraph it getRelationships objects"
    and "result \<equiv> ResolveDependents it getRelationships objects rootUID"
  defines "dependents \<equiv> resultNodes (globalMapByUID g) result - {p}"
  assumes "map_of (globalMapByUID g) rootUID = Some p"
  shows "fst ` set result = (dependentEdges (globalMapByUID g) (nodes g))\<^sup>* `` {rootUID}
       \<and> (\<forall>u \<in> fst ` set result.
            \<exists>q. map_of (globalMapByUID g) u = Some q \<and> map_of result u = Some (Some (nodes g ! q)))
       \<and> distinct (map fst result)
       \<and> card dependents \<le> length result - 1
       \<and> (card dependents = length result - 1
            \<longleftrightarrow> inj_on (map_of (globalMapByUID g)) (fst ` set result))
       \<and> (rootUID \<in> GetUID ` set objects \<and> unaliased objects
            \<longrightarrow> card dependents = length result - 1)"
proof -
  have byUID: "globalMapByUID g = globalMapByUID (buildGlobalMaps objects)"
    by (simp add: g_def resolveGraph_globalMapByUID)
  have root: "map_of (globalMapByUID (buildGlobalMaps objects)) rootUID = Some p"
    using assms(4) by (simp add: byUID)
  have keys: "fst ` set result = (dependentEdges (globalMapByUID g) (nodes g))\<^sup>* `` {rootUID}"
    unfolding result_def g_def resolveGraph_globalMapByUID by (rule ResolveDependents_keys [OF root])
  have vals: "\<exists>q. map_of (globalMapByUID g) u = Some q \<and> map_of result u = Some (Some (nodes g ! q))"
    if "u \<in> fst ` set result" for u
    using ResolveDependents_node [OF root that [unfolded result_def]]
    unfolding result_def g_def resolveGraph_globalMapByUID by blast
  have dist: "distinct (map fst result)"
    unfolding result_def by (rule ResolveDependents_distinct)
  have in_keys: "rootUID \<in> fst ` set result" unfolding keys by blast
  have resolves: "\<exists>q. map_of (globalMapByUID g) u = Some q" if "u \<in> fst ` set result" for u
    using vals [OF that] by blast
  note count = dependents_count [OF dist resolves in_keys assms(4), folded dependents_def]
  have inj: "inj_on (map_of (globalMapByUID g)) (fst ` set result)"
    if "rootUID \<in> GetUID ` set objects" "unaliased objects"
    unfolding byUID result_def using that by (rule ResolveDependents_keys_injective)
  have c2: "\<forall>u \<in> fst ` set result.
      \<exists>q. map_of (globalMapByUID g) u = Some q \<and> map_of result u = Some (Some (nodes g ! q))"
    by (intro ballI) (rule vals)
  have c6: "rootUID \<in> GetUID ` set objects \<and> unaliased objects
            \<longrightarrow> card dependents = length result - 1"
  proof (intro impI, elim conjE)
    assume "rootUID \<in> GetUID ` set objects" "unaliased objects"
    then have "inj_on (map_of (globalMapByUID g)) (fst ` set result)" by (rule inj)
    then show "card dependents = length result - 1" by (simp only: count(2))
  qed
  from keys c2 dist count(1) count(2) c6 show ?thesis by (intro conjI)
qed

text \<open>
  The scenario of the specification: a Deployment \<open>d\<close>, a ReplicaSet \<open>r\<close> controlled by
  \<open>d\<close> and a Pod \<open>p\<close> controlled by \<open>r\<close>. From \<open>d\<close> the result is \<open>{d, r, p}\<close> with
  both labels on each edge, two dependents; from \<open>p\<close> it is \<open>{p}\<close>.
\<close>

theorem ResolveDependents_reachable_witness:
  "map_of (globalMapByUID (resolveGraph ascending noRelationships deploymentScenario)) ''d'' = Some 0
   \<and> ''d'' \<in> GetUID ` set deploymentScenario
   \<and> unaliased deploymentScenario
   \<and> (dependentEdges (globalMapByUID (resolveGraph ascending noRelationships deploymentScenario))
         (nodes (resolveGraph ascending noRelationships deploymentScenario)))\<^sup>* `` {''d''}
       = {''d'', ''r'', ''p''}
   \<and> card (resultNodes (globalMapByUID (resolveGraph ascending noRelationships deploymentScenario))
              (ResolveDependents ascending noRelationships deploymentScenario ''d'') - {0}) = 2
   \<and> map (\<lambda>(u, n). (u, map_option Dependents n))
         (ResolveDependents ascending noRelationships deploymentScenario ''d'')
       = [(''d'', Some [(''r'', [''OwnerRef'', ''ControllerRef''])]),
          (''r'', Some [(''p'', [''OwnerRef'', ''ControllerRef''])]),
          (''p'', Some [])]
   \<and> map (\<lambda>(u, n). (u, map_option Dependents n))
         (ResolveDependents ascending noRelationships deploymentScenario ''p'')
       = [(''p'', Some [])]"
proof -
  have root: "map_of (globalMapByUID (resolveGraph ascending noRelationships deploymentScenario)) ''d'' = Some 0"
    by code_simp
  have own: "''d'' \<in> GetUID ` set deploymentScenario"
    by code_simp
  have free: "unaliased deploymentScenario"
    by code_simp
  have d: "map (\<lambda>(u, n). (u, map_option Dependents n))
         (ResolveDependents ascending noRelationships deploymentScenario ''d'')
       = [(''d'', Some [(''r'', [''OwnerRef'', ''ControllerRef''])]),
          (''r'', Some [(''p'', [''OwnerRef'', ''ControllerRef''])]),
          (''p'', Some [])]"
    by code_simp
  have p: "map (\<lambda>(u, n). (u, map_option Dependents n))
         (ResolveDependents ascending noRelationships deploymentScenario ''p'')
       = [(''p'', Some [])]"
    by code_simp
  have "map fst (map (\<lambda>(u, n). (u, map_option Dependents n))
         (ResolveDependents ascending noRelationships deploymentScenario ''d'')) = [''d'', ''r'', ''p'']"
    by (simp only: d) simp
  then have k: "map fst (ResolveDependents ascending noRelationships deploymentScenario ''d'') = [''d'', ''r'', ''p'']"
    by (simp only: map_fst_map_values)
  have keys: "fst ` set (ResolveDependents ascending noRelationships deploymentScenario ''d'') = {''d'', ''r'', ''p''}"
    using arg_cong [OF k, of set] by simp
  have len: "length (ResolveDependents ascending noRelationships deploymentScenario ''d'') = 3"
    using arg_cong [OF k, of length] by simp
  note inst = ResolveDependents_reachable [OF root]
  have reach: "(dependentEdges (globalMapByUID (resolveGraph ascending noRelationships deploymentScenario))
         (nodes (resolveGraph ascending noRelationships deploymentScenario)))\<^sup>* `` {''d''}
       = {''d'', ''r'', ''p''}"
    using inst [THEN conjunct1] by (simp only: keys)
  have count: "card (resultNodes (globalMapByUID (resolveGraph ascending noRelationships deploymentScenario))
              (ResolveDependents ascending noRelationships deploymentScenario ''d'') - {0}) = 2"
    using inst [THEN conjunct2, THEN conjunct2, THEN conjunct2, THEN conjunct2, THEN conjunct2,
        THEN mp, OF conjI [OF own free]]
    by (simp add: len)
  from root own free reach count d p show ?thesis by (intro conjI)
qed

text \<open>
  The claim as stated fails when the root is an alias and the node of the root is
  reached again under its identifier. The Node object \<open>u1\<close>, named \<open>node-1\<close>, is owned by
  the ConfigMap \<open>c\<close>, and \<open>c\<close> names \<open>node-1\<close> as its owner. The index files the Node under
  \<open>u1\<close> and under \<open>node-1\<close> (line 236); the traversal from \<open>node-1\<close> stores the Node under
  the root key (line 428), reaches \<open>c\<close>, and from \<open>c\<close> the key \<open>u1\<close>, which holds the Node
  once more (line 448). The result has three keys for two nodes: its size minus one is two,
  and the root has one dependent.
\<close>

definition aliasCycle :: "unit Unstructured list" where
  "aliasCycle =
     [exampleObject ''u1'' [] ''Node'' ''node-1'' [] [\<lparr>RefUID = ''c'', Controller = None\<rparr>],
      exampleObject ''c'' [] ''ConfigMap'' ''settings'' [] [\<lparr>RefUID = ''node-1'', Controller = None\<rparr>]]"

theorem ResolveDependents_alias_root_count:
  "map_of (globalMapByUID (resolveGraph ascending noRelationships aliasCycle)) ''node-1'' = Some 0
   \<and> map (\<lambda>(u, n). (u, map_option (\<lambda>n. (UID n, Dependents n)) n))
         (ResolveDependents ascending noRelationships aliasCycle ''node-1'')
       = [(''node-1'', Some (''u1'', [(''c'', [''OwnerRef''])])),
          (''c'', Some (''c'', [(''u1'', [''OwnerRef''])])),
          (''u1'', Some (''u1'', [(''c'', [''OwnerRef''])]))]
   \<and> length (ResolveDependents ascending noRelationships aliasCycle ''node-1'') - 1 = 2
   \<and> resultNodes (globalMapByUID (resolveGraph ascending noRelationships aliasCycle))
        (ResolveDependents ascending noRelationships aliasCycle ''node-1'') - {0} = {1}
   \<and> card (resultNodes (globalMapByUID (resolveGraph ascending noRelationships aliasCycle))
        (ResolveDependents ascending noRelationships aliasCycle ''node-1'') - {0}) = 1"
proof -
  have root: "map_of (globalMapByUID (resolveGraph ascending noRelationships aliasCycle)) ''node-1'' = Some 0"
    by code_simp
  have res: "map (\<lambda>(u, n). (u, map_option (\<lambda>n. (UID n, Dependents n)) n))
         (ResolveDependents ascending noRelationships aliasCycle ''node-1'')
       = [(''node-1'', Some (''u1'', [(''c'', [''OwnerRef''])])),
          (''c'', Some (''c'', [(''u1'', [''OwnerRef''])])),
          (''u1'', Some (''u1'', [(''c'', [''OwnerRef''])]))]"
    by code_simp
  have len: "length (ResolveDependents ascending noRelationships aliasCycle ''node-1'') - 1 = 2"
    by code_simp
  have ns: "resultNodes (globalMapByUID (resolveGraph ascending noRelationships aliasCycle))
        (ResolveDependents ascending noRelationships aliasCycle ''node-1'') - {0} = {1}"
    by code_simp
  have "card (resultNodes (globalMapByUID (resolveGraph ascending noRelationships aliasCycle))
        (ResolveDependents ascending noRelationships aliasCycle ''node-1'') - {0}) = 1"
    unfolding ns by simp
  with root res len ns show ?thesis by (intro conjI)
qed

text \<open>
  The condition on aliases is needed also when the root is the identifier of an object.
  The Node object \<open>x\<close>, named \<open>y\<close> and owned by \<open>n\<close>, is followed by the Node object \<open>n\<close>,
  named \<open>x\<close>: the index keeps the first object under \<open>y\<close> only, and \<open>x\<close> resolves to the
  second. From the root \<open>n\<close> the result has the keys \<open>n\<close> and \<open>x\<close>, both holding the node of
  \<open>n\<close>: its size minus one is one, and the root has no dependent.
\<close>

definition aliasedIdentifier :: "unit Unstructured list" where
  "aliasedIdentifier =
     [exampleObject ''x'' [] ''Node'' ''y'' [] [\<lparr>RefUID = ''n'', Controller = None\<rparr>],
      exampleObject ''n'' [] ''Node'' ''x'' [] []]"

lemma ResolveDependents_aliased_identifier_count:
  "''n'' \<in> GetUID ` set aliasedIdentifier
   \<and> \<not> unaliased aliasedIdentifier
   \<and> map_of (globalMapByUID (resolveGraph ascending noRelationships aliasedIdentifier)) ''n'' = Some 1
   \<and> map (\<lambda>(u, n). (u, map_option (\<lambda>n. (UID n, Dependents n)) n))
         (ResolveDependents ascending noRelationships aliasedIdentifier ''n'')
       = [(''n'', Some (''n'', [(''x'', [''OwnerRef''])])),
          (''x'', Some (''n'', [(''x'', [''OwnerRef''])]))]
   \<and> length (ResolveDependents ascending noRelationships aliasedIdentifier ''n'') - 1 = 1
   \<and> resultNodes (globalMapByUID (resolveGraph ascending noRelationships aliasedIdentifier))
        (ResolveDependents ascending noRelationships aliasedIdentifier ''n'') - {1} = {}"
proof -
  have 1: "''n'' \<in> GetUID ` set aliasedIdentifier" by code_simp
  have 2: "\<not> unaliased aliasedIdentifier" by code_simp
  have 3: "map_of (globalMapByUID (resolveGraph ascending noRelationships aliasedIdentifier)) ''n'' = Some 1"
    by code_simp
  have 4: "map (\<lambda>(u, n). (u, map_option (\<lambda>n. (UID n, Dependents n)) n))
         (ResolveDependents ascending noRelationships aliasedIdentifier ''n'')
       = [(''n'', Some (''n'', [(''x'', [''OwnerRef''])])),
          (''x'', Some (''n'', [(''x'', [''OwnerRef''])]))]"
    by code_simp
  have 5: "length (ResolveDependents ascending noRelationships aliasedIdentifier ''n'') - 1 = 1"
    by code_simp
  have 6: "resultNodes (globalMapByUID (resolveGraph ascending noRelationships aliasedIdentifier))
        (ResolveDependents ascending noRelationships aliasedIdentifier ''n'') - {1} = {}"
    by code_simp
  from 1 2 3 4 5 6 show ?thesis by (intro conjI)
qed

text \<open>
  C7 (as amended). \<open>indexKeys obj\<close> are the keys under which the first loop files an
  object in \<open>globalMapByUID\<close>: its identifier and, for an object of the core group with kind
  \<open>Node\<close>, also its name and the value of its \<open>kubernetes.io/hostname\<close> label. For every
  root identifier that is not such a key of any input object, \<open>ResolveDependents\<close> returns
  a \<open>NodeMap\<close> with zero entries; in particular for the empty collection. For a root that is
  such a key the result is not empty.
\<close>

theorem ResolveDependents_unresolved_root:
  "(rootUID \<notin> (\<Union>obj \<in> set objects. indexKeys obj)
      \<longrightarrow> ResolveDependents it getRelationships objects rootUID = [])
   \<and> ResolveDependents it getRelationships [] rootUID = []
   \<and> (rootUID \<in> (\<Union>obj \<in> set objects. indexKeys obj)
      \<longrightarrow> ResolveDependents it getRelationships objects rootUID \<noteq> [])"
proof (intro conjI impI)
  assume "rootUID \<notin> (\<Union>obj \<in> set objects. indexKeys obj)"
  then have "rootUID \<notin> dom (map_of (globalMapByUID (buildGlobalMaps objects)))"
    by (simp only: dom_byUID_buildGlobalMaps not_False_eq_True)
  then have "map_of (globalMapByUID (buildGlobalMaps objects)) rootUID = None" by auto
  then show "ResolveDependents it getRelationships objects rootUID = []"
    by (rule ResolveDependents_unresolved)
next
  have "map_of (globalMapByUID (buildGlobalMaps [])) rootUID = None"
    by (simp add: buildGlobalMaps_def)
  then show "ResolveDependents it getRelationships [] rootUID = []"
    by (rule ResolveDependents_unresolved)
next
  assume "rootUID \<in> (\<Union>obj \<in> set objects. indexKeys obj)"
  then have "rootUID \<in> dom (map_of (globalMapByUID (buildGlobalMaps objects)))"
    by (simp only: dom_byUID_buildGlobalMaps)
  then obtain p where p: "map_of (globalMapByUID (buildGlobalMaps objects)) rootUID = Some p" by auto
  have "rootUID \<in> fst ` set (ResolveDependents it getRelationships objects rootUID)"
    unfolding ResolveDependents_keys [OF p] by blast
  then show "ResolveDependents it getRelationships objects rootUID \<noteq> []" by auto
qed

text \<open>An identifier that no object of the input uses in any way gives the empty result.\<close>

theorem ResolveDependents_unresolved_root_witness:
  "''u2'' \<notin> (\<Union>obj \<in> set [clusterNode]. indexKeys obj)
   \<and> ResolveDependents ascending noRelationships [clusterNode] ''u2'' = []"
proof -
  have "''u2'' \<notin> (\<Union>obj \<in> set [clusterNode]. indexKeys obj)"
    by (simp add: indexKeys_def clusterNode_def exampleObject_def)
  with ResolveDependents_unresolved_root [of "''u2''" "[clusterNode]" ascending noRelationships]
  show ?thesis by blast
qed

text \<open>
  The claim as stated fails: the name \<open>node-1\<close> of a Node object is not the identifier of
  any input object (the only identifier is \<open>u1\<close>), and the result for the root \<open>node-1\<close>
  has one entry.
\<close>

theorem ResolveDependents_node_name_root:
  "''node-1'' \<notin> GetUID ` set [clusterNode]
   \<and> map fst (ResolveDependents ascending noRelationships [clusterNode] ''node-1'') = [''node-1'']"
proof -
  have "''node-1'' \<notin> GetUID ` set [clusterNode]"
    by (simp add: clusterNode_def exampleObject_def)
  moreover have "map fst (ResolveDependents ascending noRelationships [clusterNode] ''node-1'') = [''node-1'']"
    by code_simp
  ultimately show ?thesis by (rule conjI)
qed

text \<open>
  C4 (as amended). Every key of the returned \<open>NodeMap\<close> is the identifier of an object of
  the input collection, or it is the root identifier and the root is a key under which the
  first loop files an input object (the name or the hostname label of a Node object).
\<close>

theorem ResolveDependents_keys_from_input:
  "\<forall>u \<in> fst ` set (ResolveDependents it getRelationships objects rootUID).
      u \<in> GetUID ` set objects
      \<or> (u = rootUID \<and> rootUID \<in> (\<Union>obj \<in> set objects. indexKeys obj))"
proof
  fix u assume "u \<in> fst ` set (ResolveDependents it getRelationships objects rootUID)"
  then show "u \<in> GetUID ` set objects
      \<or> (u = rootUID \<and> rootUID \<in> (\<Union>obj \<in> set objects. indexKeys obj))"
    by (rule ResolveDependents_key_origin)
qed

text \<open>In the scenario of the specification every key of the result is an identifier of the input.\<close>

theorem ResolveDependents_keys_from_input_witness:
  "''p'' \<in> fst ` set (ResolveDependents ascending noRelationships deploymentScenario ''d'')
   \<and> ''p'' \<in> GetUID ` set deploymentScenario"
proof -
  have "map fst (ResolveDependents ascending noRelationships deploymentScenario ''d'') = [''d'', ''r'', ''p'']"
    by code_simp
  from arg_cong [OF this, of set]
  have k: "''p'' \<in> fst ` set (ResolveDependents ascending noRelationships deploymentScenario ''d'')"
    by simp
  with ResolveDependents_keys_from_input [of ascending noRelationships deploymentScenario "''d''"]
  have "''p'' \<in> GetUID ` set deploymentScenario
      \<or> (''p'' = ''d'' \<and> ''d'' \<in> (\<Union>obj \<in> set deploymentScenario. indexKeys obj))"
    by (rule bspec)
  with k show ?thesis by simp
qed

text \<open>
  The claim as stated fails: for the root \<open>host-1\<close>, the hostname label of the Node object,
  the result has the key \<open>host-1\<close>, which is not the identifier of any input object.
\<close>

theorem ResolveDependents_hostname_key:
  "''host-1'' \<in> fst ` set (ResolveDependents ascending noRelationships [clusterNode] ''host-1'')
   \<and> ''host-1'' \<notin> GetUID ` set [clusterNode]"
proof -
  have "map fst (ResolveDependents ascending noRelationships [clusterNode] ''host-1'') = [''host-1'']"
    by code_simp
  from arg_cong [OF this, of set]
  have "''host-1'' \<in> fst ` set (ResolveDependents ascending noRelationships [clusterNode] ''host-1'')"
    by simp
  moreover have "''host-1'' \<notin> GetUID ` set [clusterNode]"
    by (simp add: clusterNode_def exampleObject_def)
  ultimately show ?thesis by (rule conjI)
qed

text \<open>
  C8. In every \<open>NodeMap\<close> returned by \<open>ResolveDependents\<close>, every identifier that is a key
  of the \<open>Dependents\<close> map of an included node is itself a key of the \<open>NodeMap\<close> and holds a
  node (not nil). In the whole store no \<open>Dependents\<close> map has a key that the global
  by-identifier index does not resolve: declarations whose target is not found add nothing.
\<close>

theorem ResolveDependents_closed:
  fixes it :: iteration and getRelationships :: "'c extractors" and objects rootUID
  defines "g \<equiv> resolveGraph it getRelationships objects"
    and "result \<equiv> ResolveDependents it getRelationships objects rootUID"
  shows "(\<forall>(u, v) \<in> set result. \<forall>n. v = Some n \<longrightarrow>
            (\<forall>d \<in> fst ` set (Dependents n). \<exists>n'. map_of result d = Some (Some n')))
       \<and> (\<forall>n \<in> set (nodes g). \<forall>d \<in> fst ` set (Dependents n). d \<in> dom (map_of (globalMapByUID g)))"
proof (intro conjI ballI)
  fix e
  assume e: "e \<in> set result"
  show "case e of (u, v) \<Rightarrow> \<forall>n. v = Some n \<longrightarrow>
            (\<forall>d \<in> fst ` set (Dependents n). \<exists>n'. map_of result d = Some (Some n'))"
  proof (cases e)
    case (Pair u v)
    have "\<exists>n'. map_of result d = Some (Some n')"
      if v: "v = Some n" and d: "d \<in> fst ` set (Dependents n)" for n d
    proof -
      from e Pair have "result \<noteq> []" by auto
      then obtain p where p: "map_of (globalMapByUID (buildGlobalMaps objects)) rootUID = Some p"
        unfolding result_def using ResolveDependents_unresolved [of objects rootUID it getRelationships]
        by (cases "map_of (globalMapByUID (buildGlobalMaps objects)) rootUID") auto
      have dist: "distinct (map fst result)"
        unfolding result_def by (rule ResolveDependents_distinct)
      from e Pair v have "map_of result u = Some (Some n)"
        using dist by simp
      moreover have u: "u \<in> fst ` set result" using e Pair by force
      ultimately obtain q where q: "map_of (globalMapByUID (buildGlobalMaps objects)) u = Some q"
          "n = nodes (resolveGraph it getRelationships objects) ! q"
        using ResolveDependents_node [OF p u [unfolded result_def]] by (auto simp: result_def)
      from q d have "(u, d) \<in> dependentEdges (globalMapByUID (buildGlobalMaps objects))
          (nodes (resolveGraph it getRelationships objects))"
        by (simp add: dependentEdges_def dependentsOf_def)
      moreover from u have "(rootUID, u) \<in> (dependentEdges (globalMapByUID (buildGlobalMaps objects))
          (nodes (resolveGraph it getRelationships objects)))\<^sup>*"
        by (simp add: result_def ResolveDependents_keys [OF p])
      ultimately have "(rootUID, d) \<in> (dependentEdges (globalMapByUID (buildGlobalMaps objects))
          (nodes (resolveGraph it getRelationships objects)))\<^sup>*"
        by (rule rtrancl_into_rtrancl [rotated])
      then have "d \<in> fst ` set (ResolveDependents it getRelationships objects rootUID)"
        by (simp add: ResolveDependents_keys [OF p])
      from ResolveDependents_node [OF p this] show ?thesis
        by (auto simp: result_def)
    qed
    then show ?thesis using Pair by simp
  qed
next
  fix n d
  assume n: "n \<in> set (nodes g)" and d: "d \<in> fst ` set (Dependents n)"
  from n obtain q where q: "q < length (nodes g)" "n = nodes g ! q"
    by (auto simp: in_set_conv_nth)
  then have "q < length objects" by (simp add: g_def resolveGraph_length)
  then have "d \<in> GetUID ` set objects"
    using d q(2) unfolding g_def by (intro resolveGraph_keys_are_UIDs [of q objects d it getRelationships]) simp_all
  then obtain obj where "obj \<in> set objects" "d = GetUID obj" by auto
  then show "d \<in> dom (map_of (globalMapByUID g))"
    using GetUID_indexed [of obj objects] by (simp add: g_def resolveGraph_globalMapByUID)
qed

text \<open>In the scenario of the specification the node of \<open>d\<close> has the dependent \<open>r\<close>, and \<open>r\<close> is
  a key of the result that holds a node.\<close>

theorem ResolveDependents_closed_witness:
  "(''d'', Some (nodes (resolveGraph ascending noRelationships deploymentScenario) ! 0))
      \<in> set (ResolveDependents ascending noRelationships deploymentScenario ''d'')
   \<and> ''r'' \<in> fst ` set (Dependents (nodes (resolveGraph ascending noRelationships deploymentScenario) ! 0))
   \<and> (\<exists>n'. map_of (ResolveDependents ascending noRelationships deploymentScenario ''d'') ''r'' = Some (Some n'))"
proof -
  have e: "(''d'', Some (nodes (resolveGraph ascending noRelationships deploymentScenario) ! 0))
      \<in> set (ResolveDependents ascending noRelationships deploymentScenario ''d'')"
    by code_simp
  have d: "''r'' \<in> fst ` set (Dependents (nodes (resolveGraph ascending noRelationships deploymentScenario) ! 0))"
    by code_simp
  note inst = ResolveDependents_closed [of ascending noRelationships deploymentScenario "''d''",
      THEN conjunct1, THEN bspec, OF e]
  from inst [unfolded prod.case, rule_format, OF refl d]
  have "\<exists>n'. map_of (ResolveDependents ascending noRelationships deploymentScenario ''d'') ''r'' = Some (Some n')" .
  with e d show ?thesis by (intro conjI)
qed

text \<open>
  C10 (as amended). Let the input collection contain an object \<open>x\<close> of the core group with
  kind \<open>Node\<close>, and let the root identifier be its name or the value of its
  \<open>kubernetes.io/hostname\<close> label. If no object after \<open>x\<close> in the collection is filed
  under that key (as its identifier, or as the name or hostname of a later Node object),
  then the root resolves to the node of \<open>x\<close>: the result is not empty, it holds that node
  under the root key, and its keys are the root and everything reachable from that node
  along \<open>Dependents\<close> edges.
\<close>

theorem ResolveDependents_node_alias:
  fixes it :: iteration and getRelationships :: "'c extractors" and earlier x later rootUID
  defines "objects \<equiv> earlier @ x # later"
  defines "g \<equiv> resolveGraph it getRelationships objects"
    and "result \<equiv> ResolveDependents it getRelationships objects rootUID"
  assumes "GvkGroup x = [] \<and> GvkKind x = ''Node''"
    and "rootUID = GetName x \<or> map_of (GetLabels x) ''kubernetes.io/hostname'' = Some rootUID"
    and "rootUID \<notin> (\<Union>obj \<in> set later. indexKeys obj)"
  shows "result \<noteq> []
       \<and> map_of (globalMapByUID g) rootUID = Some (length earlier)
       \<and> map_of result rootUID = Some (Some (nodes g ! length earlier))
       \<and> Object (nodes g ! length earlier) = x
       \<and> fst ` set result = (dependentEdges (globalMapByUID g) (nodes g))\<^sup>* `` {rootUID}"
proof -
  have "rootUID \<in> indexKeys x"
    using assms(4,5) by (auto simp: indexKeys_def)
  then have p: "map_of (globalMapByUID (buildGlobalMaps objects)) rootUID = Some (length earlier)"
    unfolding objects_def using assms(6) by (rule byUID_buildGlobalMaps_last_writer)
  have keys: "fst ` set result = (dependentEdges (globalMapByUID g) (nodes g))\<^sup>* `` {rootUID}"
    unfolding result_def g_def resolveGraph_globalMapByUID by (rule ResolveDependents_keys [OF p])
  then have in_keys: "rootUID \<in> fst ` set result" by blast
  then have ne: "result \<noteq> []" by auto
  have val: "map_of result rootUID = Some (Some (nodes g ! length earlier))"
    using ResolveDependents_value [OF p in_keys [unfolded result_def], of ] p
    by (simp add: result_def g_def)
  have "length earlier < length objects" by (simp add: objects_def)
  from resolveGraph_node [OF this, of it getRelationships]
  have "Object (nodes g ! length earlier) = Object (newNode (objects ! length earlier))"
    unfolding g_def by (metis Node.select_convs(1) Node.surjective Node.update_convs(8))
  then have obj: "Object (nodes g ! length earlier) = x"
    by (simp add: objects_def newNode_def)
  from ne p val obj keys show ?thesis
    by (simp add: g_def resolveGraph_globalMapByUID)
qed

text \<open>The Node object of the examples is found under its hostname label.\<close>

theorem ResolveDependents_node_alias_witness:
  "GvkGroup clusterNode = [] \<and> GvkKind clusterNode = ''Node''
   \<and> map_of (GetLabels clusterNode) ''kubernetes.io/hostname'' = Some ''host-1''
   \<and> ''host-1'' \<notin> (\<Union>obj \<in> set [exampleObject ''c'' [] ''ConfigMap'' ''cm'' [] []]. indexKeys obj)
   \<and> Object (nodes (resolveGraph ascending noRelationships
                [exampleObject ''d'' ''apps'' ''Deployment'' ''D'' [] [], clusterNode,
                 exampleObject ''c'' [] ''ConfigMap'' ''cm'' [] []]) ! 1) = clusterNode
   \<and> map_of (ResolveDependents ascending noRelationships
                [exampleObject ''d'' ''apps'' ''Deployment'' ''D'' [] [], clusterNode,
                 exampleObject ''c'' [] ''ConfigMap'' ''cm'' [] []] ''host-1'') ''host-1''
       = Some (Some (nodes (resolveGraph ascending noRelationships
                [exampleObject ''d'' ''apps'' ''Deployment'' ''D'' [] [], clusterNode,
                 exampleObject ''c'' [] ''ConfigMap'' ''cm'' [] []]) ! 1))"
proof -
  have 1: "GvkGroup clusterNode = [] \<and> GvkKind clusterNode = ''Node''"
    by (simp add: clusterNode_def exampleObject_def)
  have 2: "map_of (GetLabels clusterNode) ''kubernetes.io/hostname'' = Some ''host-1''"
    by (simp add: clusterNode_def exampleObject_def)
  then have 3: "''host-1'' = GetName clusterNode
      \<or> map_of (GetLabels clusterNode) ''kubernetes.io/hostname'' = Some ''host-1''" ..
  have 4: "''host-1'' \<notin> (\<Union>obj \<in> set [exampleObject ''c'' [] ''ConfigMap'' ''cm'' [] []]. indexKeys obj)"
    by (simp add: indexKeys_def exampleObject_def)
  from ResolveDependents_node_alias [OF 1 3 4,
      of ascending noRelationships "[exampleObject ''d'' ''apps'' ''Deployment'' ''D'' [] []]"]
    1 2 4
  show ?thesis by simp
qed

text \<open>
  The claim as stated fails: an object after the Node object whose identifier is the
  name \<open>node-1\<close> takes the key, and the root \<open>node-1\<close> resolves to that object (here a
  ConfigMap) instead of the node.
\<close>

theorem ResolveDependents_alias_overwritten:
  "GvkGroup clusterNode = [] \<and> GvkKind clusterNode = ''Node'' \<and> GetName clusterNode = ''node-1''
   \<and> map (\<lambda>(u, n). (u, map_option Kind n))
         (ResolveDependents ascending noRelationships
            [clusterNode, exampleObject ''node-1'' [] ''ConfigMap'' ''cm'' [] []] ''node-1'')
       = [(''node-1'', Some ''ConfigMap'')]"
proof -
  have "GvkGroup clusterNode = [] \<and> GvkKind clusterNode = ''Node'' \<and> GetName clusterNode = ''node-1''"
    by (simp add: clusterNode_def exampleObject_def)
  moreover have "map (\<lambda>(u, n). (u, map_option Kind n))
         (ResolveDependents ascending noRelationships
            [clusterNode, exampleObject ''node-1'' [] ''ConfigMap'' ''cm'' [] []] ''node-1'')
       = [(''node-1'', Some ''ConfigMap'')]"
    by code_simp
  ultimately show ?thesis by simp
qed

section \<open>Merging a relationship map\<close>

lemma labels_from_edges: "(q, u, r) \<in> edges h \<Longrightarrow> r \<in> labels (h ! q) u"
  by (simp add: edges_def)

lemma relationshipEdges_DependenciesByRef:
  assumes "(k, rset) \<in> set (DependenciesByRef rmap)" "map_of byKey k = Some n" "r \<in> set rset"
  shows "(n, UID (sk ! node), r) \<in> relationshipEdges sk byUID byKey node rmap"
proof -
  have "(n, UID (sk ! node), r) \<in> (case map_of byKey k of Some n \<Rightarrow> reverseEdges sk node n rset | None \<Rightarrow> {})"
    using assms(2,3) by (simp add: reverseEdges_def)
  with assms(1) have "(n, UID (sk ! node), r) \<in> (\<Union>(k, rset) \<in> set (DependenciesByRef rmap).
         case map_of byKey k of Some n \<Rightarrow> reverseEdges sk node n rset | None \<Rightarrow> {})"
    by (intro UN_I [where a = "(k, rset)"]) simp_all
  then show ?thesis by (simp add: relationshipEdges_def)
qed

lemma relationshipEdges_DependentsByRef:
  assumes "(k, rset) \<in> set (DependentsByRef rmap)" "map_of byKey k = Some n" "r \<in> set rset"
  shows "(node, UID (sk ! n), r) \<in> relationshipEdges sk byUID byKey node rmap"
proof -
  have "(node, UID (sk ! n), r) \<in> (case map_of byKey k of Some n \<Rightarrow> forwardEdges sk node n rset | None \<Rightarrow> {})"
    using assms(2,3) by (simp add: forwardEdges_def)
  with assms(1) have "(node, UID (sk ! n), r) \<in> (\<Union>(k, rset) \<in> set (DependentsByRef rmap).
         case map_of byKey k of Some n \<Rightarrow> forwardEdges sk node n rset | None \<Rightarrow> {})"
    by (intro UN_I [where a = "(k, rset)"]) simp_all
  then show ?thesis by (simp add: relationshipEdges_def)
qed

lemma relationshipEdges_DependenciesByUID:
  assumes "(uid, rset) \<in> set (DependenciesByUID rmap)" "map_of byUID uid = Some n" "r \<in> set rset"
  shows "(n, UID (sk ! node), r) \<in> relationshipEdges sk byUID byKey node rmap"
proof -
  have "(n, UID (sk ! node), r) \<in> (case map_of byUID uid of Some n \<Rightarrow> reverseEdges sk node n rset | None \<Rightarrow> {})"
    using assms(2,3) by (simp add: reverseEdges_def)
  with assms(1) have "(n, UID (sk ! node), r) \<in> (\<Union>(uid, rset) \<in> set (DependenciesByUID rmap).
         case map_of byUID uid of Some n \<Rightarrow> reverseEdges sk node n rset | None \<Rightarrow> {})"
    by (intro UN_I [where a = "(uid, rset)"]) simp_all
  then show ?thesis by (simp add: relationshipEdges_def)
qed

lemma relationshipEdges_DependentsByUID:
  assumes "(uid, rset) \<in> set (DependentsByUID rmap)" "map_of byUID uid = Some n" "r \<in> set rset"
  shows "(node, UID (sk ! n), r) \<in> relationshipEdges sk byUID byKey node rmap"
proof -
  have "(node, UID (sk ! n), r) \<in> (case map_of byUID uid of Some n \<Rightarrow> forwardEdges sk node n rset | None \<Rightarrow> {})"
    using assms(2,3) by (simp add: forwardEdges_def)
  with assms(1) have "(node, UID (sk ! n), r) \<in> (\<Union>(uid, rset) \<in> set (DependentsByUID rmap).
         case map_of byUID uid of Some n \<Rightarrow> forwardEdges sk node n rset | None \<Rightarrow> {})"
    by (intro UN_I [where a = "(uid, rset)"]) simp_all
  then show ?thesis by (simp add: relationshipEdges_def)
qed

lemma relationshipEdges_DependenciesByLabelSelector:
  assumes "(k, rset) \<in> set (DependenciesByLabelSelector rmap)"
    "map_of (ObjectLabelSelectors rmap) k = Some ols" "n \<in> selected sk byUID ols" "r \<in> set rset"
  shows "(n, UID (sk ! node), r) \<in> relationshipEdges sk byUID byKey node rmap"
proof -
  have "(n, UID (sk ! node), r) \<in> (case map_of (ObjectLabelSelectors rmap) k of
           Some ols \<Rightarrow> (\<Union>n \<in> selected sk byUID ols. reverseEdges sk node n rset) | None \<Rightarrow> {})"
    using assms(2,3,4) by (auto simp: reverseEdges_def)
  with assms(1) have "(n, UID (sk ! node), r) \<in> (\<Union>(k, rset) \<in> set (DependenciesByLabelSelector rmap).
         case map_of (ObjectLabelSelectors rmap) k of
           Some ols \<Rightarrow> (\<Union>n \<in> selected sk byUID ols. reverseEdges sk node n rset) | None \<Rightarrow> {})"
    by (intro UN_I [where a = "(k, rset)"]) simp_all
  then show ?thesis by (simp add: relationshipEdges_def)
qed

lemma relationshipEdges_DependentsByLabelSelector:
  assumes "(k, rset) \<in> set (DependentsByLabelSelector rmap)"
    "map_of (ObjectLabelSelectors rmap) k = Some ols" "n \<in> selected sk byUID ols" "r \<in> set rset"
  shows "(node, UID (sk ! n), r) \<in> relationshipEdges sk byUID byKey node rmap"
proof -
  have "(node, UID (sk ! n), r) \<in> (case map_of (ObjectLabelSelectors rmap) k of
           Some ols \<Rightarrow> (\<Union>n \<in> selected sk byUID ols. forwardEdges sk node n rset) | None \<Rightarrow> {})"
    using assms(2,3,4) by (auto simp: forwardEdges_def)
  with assms(1) have "(node, UID (sk ! n), r) \<in> (\<Union>(k, rset) \<in> set (DependentsByLabelSelector rmap).
         case map_of (ObjectLabelSelectors rmap) k of
           Some ols \<Rightarrow> (\<Union>n \<in> selected sk byUID ols. forwardEdges sk node n rset) | None \<Rightarrow> {})"
    by (intro UN_I [where a = "(k, rset)"]) simp_all
  then show ?thesis by (simp add: relationshipEdges_def)
qed

lemma updateRelationships_adds:
  assumes "node < length h" "validPtrs byUID h" "validPtrs byKey h"
    and "(q, u, r) \<in> relationshipEdges (skeleton h) byUID byKey node rmap"
  shows "r \<in> labels (updateRelationships it byUID byKey node rmap h ! q) u"
proof -
  from grows_updateRelationships [OF assms(1-3), of rmap it] assms(4)
  have "(q, u, r) \<in> edges (updateRelationships it byUID byKey node rmap h)"
    by (simp add: grows_def)
  then show ?thesis by (rule labels_from_edges)
qed

text \<open>The declarations of a relationship map that resolve against the global maps, as
  pairs of the node they resolve to and a declared label: by reference through
  \<open>globalMapByKey\<close>, by identifier through \<open>globalMapByUID\<close>, by label selector through the
  registered selector and the indexed nodes it selects.\<close>

definition resolvedDeclarations ::
    "'c Node list \<Rightarrow> (UID \<times> nat) list \<Rightarrow> (ObjectReferenceKey \<times> nat) list
      \<Rightarrow> (ObjectLabelSelectorKey \<times> ObjectLabelSelector) list
      \<Rightarrow> (ObjectReferenceKey \<times> RelationshipSet) list \<Rightarrow> (UID \<times> RelationshipSet) list
      \<Rightarrow> (ObjectLabelSelectorKey \<times> RelationshipSet) list \<Rightarrow> (nat \<times> Relationship) set" where
  "resolvedDeclarations h byUID byKey sels byRef byIdentifier bySelector =
     {(n, r).
        (\<exists>(k, rset) \<in> set byRef. map_of byKey k = Some n \<and> r \<in> set rset)
      \<or> (\<exists>(uid, rset) \<in> set byIdentifier. map_of byUID uid = Some n \<and> r \<in> set rset)
      \<or> (\<exists>(k, rset) \<in> set bySelector. \<exists>ols. map_of sels k = Some ols
            \<and> n \<in> snd ` set byUID \<and> selects ols (h ! n) \<and> r \<in> set rset)}"

definition resolvedDependencies ::
    "'c Node list \<Rightarrow> (UID \<times> nat) list \<Rightarrow> (ObjectReferenceKey \<times> nat) list \<Rightarrow> RelationshipMap
      \<Rightarrow> (nat \<times> Relationship) set" where
  "resolvedDependencies h byUID byKey rmap =
     resolvedDeclarations h byUID byKey (ObjectLabelSelectors rmap)
       (DependenciesByRef rmap) (DependenciesByUID rmap) (DependenciesByLabelSelector rmap)"

definition resolvedDependents ::
    "'c Node list \<Rightarrow> (UID \<times> nat) list \<Rightarrow> (ObjectReferenceKey \<times> nat) list \<Rightarrow> RelationshipMap
      \<Rightarrow> (nat \<times> Relationship) set" where
  "resolvedDependents h byUID byKey rmap =
     resolvedDeclarations h byUID byKey (ObjectLabelSelectors rmap)
       (DependentsByRef rmap) (DependentsByUID rmap) (DependentsByLabelSelector rmap)"

lemma reverse_case_iff:
  "(q, u, r) \<in> (case opt of Some n \<Rightarrow> reverseEdges sk node n rset | None \<Rightarrow> {})
     \<longleftrightarrow> u = UID (sk ! node) \<and> opt = Some q \<and> r \<in> set rset"
  by (cases opt) (auto simp: reverseEdges_def)

lemma forward_case_iff:
  "(q, u, r) \<in> (case opt of Some n \<Rightarrow> forwardEdges sk node n rset | None \<Rightarrow> {})
     \<longleftrightarrow> q = node \<and> (\<exists>n. u = UID (sk ! n) \<and> opt = Some n \<and> r \<in> set rset)"
  by (cases opt) (auto simp: forwardEdges_def)

lemma reverse_selected_iff:
  "(q, u, r) \<in> (case opt of
        Some ols \<Rightarrow> (\<Union>n \<in> selected sk byUID ols. reverseEdges sk node n rset) | None \<Rightarrow> {})
     \<longleftrightarrow> u = UID (sk ! node)
         \<and> (\<exists>ols. opt = Some ols \<and> q \<in> snd ` set byUID \<and> selects ols (sk ! q) \<and> r \<in> set rset)"
  by (cases opt) (auto simp: reverseEdges_def selected_def)

lemma forward_selected_iff:
  "(q, u, r) \<in> (case opt of
        Some ols \<Rightarrow> (\<Union>n \<in> selected sk byUID ols. forwardEdges sk node n rset) | None \<Rightarrow> {})
     \<longleftrightarrow> q = node
         \<and> (\<exists>n. u = UID (sk ! n)
               \<and> (\<exists>ols. opt = Some ols \<and> n \<in> snd ` set byUID \<and> selects ols (sk ! n) \<and> r \<in> set rset))"
  by (cases opt) (auto simp: forwardEdges_def selected_def)

lemma resolvedDeclarations_iff:
  "(n, r) \<in> resolvedDeclarations h byUID byKey sels byRef byIdentifier bySelector \<longleftrightarrow>
        (\<exists>(k, rset) \<in> set byRef. map_of byKey k = Some n \<and> r \<in> set rset)
      \<or> (\<exists>(uid, rset) \<in> set byIdentifier. map_of byUID uid = Some n \<and> r \<in> set rset)
      \<or> (\<exists>(k, rset) \<in> set bySelector. \<exists>ols. map_of sels k = Some ols
            \<and> n \<in> snd ` set byUID \<and> selects ols (h ! n) \<and> r \<in> set rset)"
  by (simp add: resolvedDeclarations_def)

lemma relationshipEdges_reverse_or_forward:
  "(q, u, r) \<in> relationshipEdges sk byUID byKey node rmap \<longleftrightarrow>
     (u = UID (sk ! node) \<and> (q, r) \<in> resolvedDependencies sk byUID byKey rmap)
   \<or> (q = node \<and> (\<exists>n. u = UID (sk ! n) \<and> (n, r) \<in> resolvedDependents sk byUID byKey rmap))"
  unfolding relationshipEdges_def Un_iff UN_iff case_prod_unfold
    reverse_case_iff forward_case_iff reverse_selected_iff forward_selected_iff
    resolvedDependencies_def resolvedDependents_def resolvedDeclarations_iff
  by blast

lemma selects_skeleton: "n < length h \<Longrightarrow> selects ols (skeleton h ! n) = selects ols (h ! n)"
  by (simp add: selects_def skeleton_fields)

lemma resolvedDeclarations_skeleton:
  assumes "validPtrs byUID h"
  shows "resolvedDeclarations (skeleton h) byUID byKey sels byRef byIdentifier bySelector
           = resolvedDeclarations h byUID byKey sels byRef byIdentifier bySelector"
proof -
  have "selects ols (skeleton h ! n) = selects ols (h ! n)" if "n \<in> snd ` set byUID" for n ols
    using that assms by (intro selects_skeleton) (auto simp: validPtrs_def)
  then have "(n \<in> snd ` set byUID \<and> selects ols (skeleton h ! n) \<and> P)
      = (n \<in> snd ` set byUID \<and> selects ols (h ! n) \<and> P)" for n ols P
    by blast
  then show ?thesis unfolding resolvedDeclarations_def by (simp only:)
qed

lemma resolvedDeclarations_bound:
  assumes "validPtrs byUID h" "validPtrs byKey h"
    and "(n, r) \<in> resolvedDeclarations h byUID byKey sels byRef byIdentifier bySelector"
  shows "n < length h"
proof -
  from assms(3) consider k where "map_of byKey k = Some n" | uid where "map_of byUID uid = Some n"
    | "n \<in> snd ` set byUID"
    unfolding resolvedDeclarations_iff by blast
  then show ?thesis
  proof cases
    case 1 with assms(2) show ?thesis by (rule validPtrs_lookup)
  next
    case 2 with assms(1) show ?thesis by (rule validPtrs_lookup)
  next
    case 3 with assms(1) show ?thesis by (auto simp: validPtrs_def)
  qed
qed

lemma updateRelationships_edges:
  assumes "node < length h" "validPtrs byUID h" "validPtrs byKey h"
  shows "(q, u, r) \<in> edges (updateRelationships it byUID byKey node rmap h) \<longleftrightarrow>
     (q, u, r) \<in> edges h
     \<or> (u = UID (h ! node) \<and> (q, r) \<in> resolvedDependencies h byUID byKey rmap)
     \<or> (q = node \<and> (\<exists>n. u = UID (h ! n) \<and> (n, r) \<in> resolvedDependents h byUID byKey rmap))"
proof -
  have e: "edges (updateRelationships it byUID byKey node rmap h)
      = edges h \<union> relationshipEdges (skeleton h) byUID byKey node rmap"
    using grows_updateRelationships [OF assms, of rmap it] by (simp add: grows_def)
  have node: "UID (skeleton h ! node) = UID (h ! node)"
    using assms(1) by (rule skeleton_fields)
  have deps: "resolvedDependencies (skeleton h) byUID byKey rmap = resolvedDependencies h byUID byKey rmap"
    unfolding resolvedDependencies_def using assms(2) by (rule resolvedDeclarations_skeleton)
  have dpts: "resolvedDependents (skeleton h) byUID byKey rmap = resolvedDependents h byUID byKey rmap"
    unfolding resolvedDependents_def using assms(2) by (rule resolvedDeclarations_skeleton)
  have uid: "UID (skeleton h ! n) = UID (h ! n)" if "(n, r) \<in> resolvedDependents h byUID byKey rmap" for n
    using that assms(2,3) unfolding resolvedDependents_def
    by (intro skeleton_fields) (rule resolvedDeclarations_bound)
  have "(\<exists>n. u = UID (skeleton h ! n) \<and> (n, r) \<in> resolvedDependents h byUID byKey rmap)
      \<longleftrightarrow> (\<exists>n. u = UID (h ! n) \<and> (n, r) \<in> resolvedDependents h byUID byKey rmap)"
    using uid by metis
  then show ?thesis
    unfolding e Un_iff relationshipEdges_reverse_or_forward node deps dpts by (simp only:)
qed

lemma updateRelationships_length:
  assumes "node < length h" "validPtrs byUID h" "validPtrs byKey h"
  shows "length (updateRelationships it byUID byKey node rmap h) = length h"
  using grows_updateRelationships [OF assms, of rmap it] by (rule grows_length)

lemma updateRelationships_labels:
  assumes "node < length h" "validPtrs byUID h" "validPtrs byKey h" "q < length h"
  shows "labels (updateRelationships it byUID byKey node rmap h ! q) u
          = labels (h ! q) u
            \<union> {r. u = UID (h ! node) \<and> (q, r) \<in> resolvedDependencies h byUID byKey rmap}
            \<union> {r. q = node \<and> (\<exists>n. u = UID (h ! n) \<and> (n, r) \<in> resolvedDependents h byUID byKey rmap)}"
proof -
  have len: "q < length (updateRelationships it byUID byKey node rmap h)"
    using assms(4) updateRelationships_length [OF assms(1-3), of it rmap] by simp
  have old: "r \<in> labels (h ! q) u \<longleftrightarrow> (q, u, r) \<in> edges h" for r
    using assms(4) by (simp add: edges_def)
  have new: "r \<in> labels (updateRelationships it byUID byKey node rmap h ! q) u
      \<longleftrightarrow> (q, u, r) \<in> edges (updateRelationships it byUID byKey node rmap h)" for r
    using len by (simp add: edges_def)
  show ?thesis
    by (rule set_eqI) (simp only: new old updateRelationships_edges [OF assms(1-3)] Un_iff mem_Collect_eq disj_assoc)
qed

lemma updateRelationships_fields:
  assumes "node < length h" "validPtrs byUID h" "validPtrs byKey h" "q < length h"
  shows "updateRelationships it byUID byKey node rmap h ! q
           = (h ! q)\<lparr>Dependents := Dependents (updateRelationships it byUID byKey node rmap h ! q)\<rparr>"
proof -
  let ?h' = "updateRelationships it byUID byKey node rmap h"
  have sk: "skeleton ?h' = skeleton h"
    using grows_updateRelationships [OF assms(1-3), of rmap it] by (rule grows_skeleton)
  have len: "q < length ?h'"
    using assms(4) updateRelationships_length [OF assms(1-3), of it rmap] by simp
  have "?h' ! q = (skeleton ?h' ! q)\<lparr>Dependents := Dependents (?h' ! q)\<rparr>"
    using len by (rule node_from_skeleton)
  also have "skeleton ?h' ! q = (h ! q)\<lparr>Dependents := []\<rparr>"
    unfolding sk using assms(4) by (rule skeleton_nth)
  finally show ?thesis by simp
qed

text \<open>
  C6. Let \<open>updateRelationships\<close> merge the relationship map \<open>rmap\<close> of the node at \<open>node\<close>
  into a store \<open>h\<close> whose global maps point to allocated nodes. Every dependency
  declaration that resolves (by reference through \<open>globalMapByKey\<close>, by identifier through
  \<open>globalMapByUID\<close>, by label selector through the registered selector and the nodes it
  selects) adds the declaring node, with every declared label, to the \<open>Dependents\<close> of the
  referenced node \<open>n\<close> (a reverse edge). Every dependent declaration that resolves adds the
  referenced node \<open>n\<close>, with every declared label, to the \<open>Dependents\<close> of the declaring
  node (a forward edge). \<open>labels n u\<close> is the label set stored in \<open>n.Dependents[u]\<close>.
  These are the only changes: after the merge the label set of every entry is the one
  before the merge, together with the labels of the resolved dependency declarations when
  the entry is the one of the referenced node for the declaring node, and the labels of the
  resolved dependent declarations when the entry is the one of the declaring node for the
  referenced node; no entry is added in the opposite direction, and no other field of a
  node changes. No entry is added without a label: when every entry of the store has at
  least one label before the merge (\<open>inhabited\<close>, as in every store that \<open>ResolveDependents\<close>
  builds), this is so after it, and the keys of a \<open>Dependents\<close> map are the identifiers
  with a non-empty label set.
\<close>

theorem updateRelationships_directions:
  fixes it :: iteration and h :: "'c Node list" and byUID byKey node rmap
  defines "h' \<equiv> updateRelationships it byUID byKey node rmap h"
  assumes "node < length h" and "validPtrs byUID h" and "validPtrs byKey h"
  shows
    "(\<forall>(k, rset) \<in> set (DependenciesByRef rmap). \<forall>n. map_of byKey k = Some n \<longrightarrow>
        set rset \<subseteq> labels (h' ! n) (UID (h ! node)))
   \<and> (\<forall>(uid, rset) \<in> set (DependenciesByUID rmap). \<forall>n. map_of byUID uid = Some n \<longrightarrow>
        set rset \<subseteq> labels (h' ! n) (UID (h ! node)))
   \<and> (\<forall>(k, rset) \<in> set (DependenciesByLabelSelector rmap).
        \<forall>ols. map_of (ObjectLabelSelectors rmap) k = Some ols \<longrightarrow>
          (\<forall>n \<in> snd ` set byUID. selects ols (h ! n) \<longrightarrow>
             set rset \<subseteq> labels (h' ! n) (UID (h ! node))))
   \<and> (\<forall>(k, rset) \<in> set (DependentsByRef rmap). \<forall>n. map_of byKey k = Some n \<longrightarrow>
        set rset \<subseteq> labels (h' ! node) (UID (h ! n)))
   \<and> (\<forall>(uid, rset) \<in> set (DependentsByUID rmap). \<forall>n. map_of byUID uid = Some n \<longrightarrow>
        set rset \<subseteq> labels (h' ! node) (UID (h ! n)))
   \<and> (\<forall>(k, rset) \<in> set (DependentsByLabelSelector rmap).
        \<forall>ols. map_of (ObjectLabelSelectors rmap) k = Some ols \<longrightarrow>
          (\<forall>n \<in> snd ` set byUID. selects ols (h ! n) \<longrightarrow>
             set rset \<subseteq> labels (h' ! node) (UID (h ! n))))
   \<and> (\<forall>q u. q < length h \<longrightarrow>
        labels (h' ! q) u
          = labels (h ! q) u
            \<union> {r. u = UID (h ! node) \<and> (q, r) \<in> resolvedDependencies h byUID byKey rmap}
            \<union> {r. q = node \<and> (\<exists>n. u = UID (h ! n) \<and> (n, r) \<in> resolvedDependents h byUID byKey rmap)})
   \<and> length h' = length h
   \<and> (\<forall>q < length h. h' ! q = (h ! q)\<lparr>Dependents := Dependents (h' ! q)\<rparr>)
   \<and> (inhabited h \<longrightarrow> inhabited h')"
proof -
  note adds = updateRelationships_adds [OF assms(2-4), of _ _ _ rmap it, folded h'_def]
  have node: "UID (skeleton h ! node) = UID (h ! node)"
    using assms(2) by (rule skeleton_fields)
  have byKey: "UID (skeleton h ! n) = UID (h ! n)" if "map_of byKey k = Some n" for k n
    using validPtrs_lookup [OF assms(4) that] by (rule skeleton_fields)
  have byUID: "UID (skeleton h ! n) = UID (h ! n)" if "map_of byUID k = Some n" for k n
    using validPtrs_lookup [OF assms(3) that] by (rule skeleton_fields)
  have sel: "n \<in> selected (skeleton h) byUID ols \<and> UID (skeleton h ! n) = UID (h ! n)"
    if "n \<in> snd ` set byUID" "selects ols (h ! n)" for n ols
  proof -
    from that(1) assms(3) have n: "n < length h" by (auto simp: validPtrs_def)
    then have "selects ols (skeleton h ! n)"
      using that(2) by (simp add: selects_def skeleton_fields)
    with that(1) n show ?thesis by (simp add: selected_def skeleton_fields)
  qed
  have 1: "set rset \<subseteq> labels (h' ! n) (UID (h ! node))"
    if "(k, rset) \<in> set (DependenciesByRef rmap)" "map_of byKey k = Some n" for k rset n
  proof
    fix r assume "r \<in> set rset"
    from adds [OF relationshipEdges_DependenciesByRef [OF that this]]
    show "r \<in> labels (h' ! n) (UID (h ! node))" by (simp add: node)
  qed
  have 2: "set rset \<subseteq> labels (h' ! n) (UID (h ! node))"
    if "(uid, rset) \<in> set (DependenciesByUID rmap)" "map_of byUID uid = Some n" for uid rset n
  proof
    fix r assume "r \<in> set rset"
    from adds [OF relationshipEdges_DependenciesByUID [OF that this]]
    show "r \<in> labels (h' ! n) (UID (h ! node))" by (simp add: node)
  qed
  have 3: "set rset \<subseteq> labels (h' ! n) (UID (h ! node))"
    if "(k, rset) \<in> set (DependenciesByLabelSelector rmap)"
      "map_of (ObjectLabelSelectors rmap) k = Some ols" "n \<in> snd ` set byUID" "selects ols (h ! n)"
    for k rset ols n
  proof
    fix r assume "r \<in> set rset"
    from adds [OF relationshipEdges_DependenciesByLabelSelector
        [OF that(1,2) sel [OF that(3,4), THEN conjunct1] this]]
    show "r \<in> labels (h' ! n) (UID (h ! node))" by (simp add: node)
  qed
  have 4: "set rset \<subseteq> labels (h' ! node) (UID (h ! n))"
    if "(k, rset) \<in> set (DependentsByRef rmap)" "map_of byKey k = Some n" for k rset n
  proof
    fix r assume "r \<in> set rset"
    from adds [OF relationshipEdges_DependentsByRef [OF that this]]
    show "r \<in> labels (h' ! node) (UID (h ! n))" by (simp add: byKey [OF that(2)])
  qed
  have 5: "set rset \<subseteq> labels (h' ! node) (UID (h ! n))"
    if "(uid, rset) \<in> set (DependentsByUID rmap)" "map_of byUID uid = Some n" for uid rset n
  proof
    fix r assume "r \<in> set rset"
    from adds [OF relationshipEdges_DependentsByUID [OF that this]]
    show "r \<in> labels (h' ! node) (UID (h ! n))" by (simp add: byUID [OF that(2)])
  qed
  have 6: "set rset \<subseteq> labels (h' ! node) (UID (h ! n))"
    if "(k, rset) \<in> set (DependentsByLabelSelector rmap)"
      "map_of (ObjectLabelSelectors rmap) k = Some ols" "n \<in> snd ` set byUID" "selects ols (h ! n)"
    for k rset ols n
  proof
    fix r assume "r \<in> set rset"
    from adds [OF relationshipEdges_DependentsByLabelSelector
        [OF that(1,2) sel [OF that(3,4), THEN conjunct1] this]]
    show "r \<in> labels (h' ! node) (UID (h ! n))" by (simp add: sel [OF that(3,4), THEN conjunct2])
  qed
  have 7: "labels (h' ! q) u
          = labels (h ! q) u
            \<union> {r. u = UID (h ! node) \<and> (q, r) \<in> resolvedDependencies h byUID byKey rmap}
            \<union> {r. q = node \<and> (\<exists>n. u = UID (h ! n) \<and> (n, r) \<in> resolvedDependents h byUID byKey rmap)}"
    if "q < length h" for q u
    unfolding h'_def using assms(2-4) that by (rule updateRelationships_labels)
  have 8: "length h' = length h"
    unfolding h'_def using assms(2-4) by (rule updateRelationships_length)
  have 9: "h' ! q = (h ! q)\<lparr>Dependents := Dependents (h' ! q)\<rparr>" if "q < length h" for q
    unfolding h'_def using assms(2-4) that by (rule updateRelationships_fields)
  have c16: "(\<forall>(k, rset) \<in> set (DependenciesByRef rmap). \<forall>n. map_of byKey k = Some n \<longrightarrow>
        set rset \<subseteq> labels (h' ! n) (UID (h ! node)))
   \<and> (\<forall>(uid, rset) \<in> set (DependenciesByUID rmap). \<forall>n. map_of byUID uid = Some n \<longrightarrow>
        set rset \<subseteq> labels (h' ! n) (UID (h ! node)))
   \<and> (\<forall>(k, rset) \<in> set (DependenciesByLabelSelector rmap).
        \<forall>ols. map_of (ObjectLabelSelectors rmap) k = Some ols \<longrightarrow>
          (\<forall>n \<in> snd ` set byUID. selects ols (h ! n) \<longrightarrow>
             set rset \<subseteq> labels (h' ! n) (UID (h ! node))))
   \<and> (\<forall>(k, rset) \<in> set (DependentsByRef rmap). \<forall>n. map_of byKey k = Some n \<longrightarrow>
        set rset \<subseteq> labels (h' ! node) (UID (h ! n)))
   \<and> (\<forall>(uid, rset) \<in> set (DependentsByUID rmap). \<forall>n. map_of byUID uid = Some n \<longrightarrow>
        set rset \<subseteq> labels (h' ! node) (UID (h ! n)))
   \<and> (\<forall>(k, rset) \<in> set (DependentsByLabelSelector rmap).
        \<forall>ols. map_of (ObjectLabelSelectors rmap) k = Some ols \<longrightarrow>
          (\<forall>n \<in> snd ` set byUID. selects ols (h ! n) \<longrightarrow>
             set rset \<subseteq> labels (h' ! node) (UID (h ! n))))"
    by ((intro conjI ballI; simp only: split_paired_all prod.case; intro allI impI ballI),
        (rule 1 2 3 4 5 6; assumption)+)
  have c7: "\<forall>q u. q < length h \<longrightarrow>
        labels (h' ! q) u
          = labels (h ! q) u
            \<union> {r. u = UID (h ! node) \<and> (q, r) \<in> resolvedDependencies h byUID byKey rmap}
            \<union> {r. q = node \<and> (\<exists>n. u = UID (h ! n) \<and> (n, r) \<in> resolvedDependents h byUID byKey rmap)}"
    by (intro allI impI) (rule 7)
  have c9: "\<forall>q < length h. h' ! q = (h ! q)\<lparr>Dependents := Dependents (h' ! q)\<rparr>"
    by (intro allI impI) (rule 9)
  have c10: "inhabited h \<longrightarrow> inhabited h'"
    unfolding h'_def using grows_updateRelationships [OF assms(2-4), of rmap it]
    by (simp add: grows_def)
  show ?thesis
    apply (insert c16 c7 8 c9 c10)
    apply (elim conjE)
    apply (intro conjI; assumption)
    done
qed

text \<open>A Service that selects Pods by label: the selector \<open>app=web\<close> in the namespace
  \<open>default\<close>, and the relationships an extractor could declare for the Service.\<close>

definition webSelector :: ObjectLabelSelector where
  "webSelector =
     \<lparr>selGroup = [], selKind = ''Pod'', selNamespace = ''default'',
      selSelector = \<lparr>String = ''app=web'', Matches = (\<lambda>l. map_of l ''app'' = Some ''web'')\<rparr>\<rparr>"

definition serviceScenario :: "unit Unstructured list" where
  "serviceScenario =
     [exampleObject ''s'' [] ''Service'' ''svc'' [] [],
      exampleObject ''w'' [] ''Pod'' ''web-1'' [(''app'', ''web'')] [],
      exampleObject ''b'' [] ''Pod'' ''db-1'' [(''app'', ''db'')] [],
      exampleObject ''c'' [] ''ConfigMap'' ''settings'' [] []]"

definition serviceRelationships :: RelationshipMap where
  "serviceRelationships =
     newRelationshipMap
       \<lparr>DependentsByLabelSelector := [(ObjectLabelSelector_Key webSelector, [''Service''])],
        ObjectLabelSelectors := [(ObjectLabelSelector_Key webSelector, webSelector)],
        DependenciesByUID := [(''c'', [''Settings''])],
        DependenciesByRef := [(''missing'', [''Lost''])]\<rparr>"

text \<open>
  The Service of the example declares the Pods selected by \<open>app=web\<close> as dependents, a
  dependency on the identifier \<open>c\<close> and a dependency on a reference that no object has.
  The Service gains the Pod \<open>w\<close> as a dependent (forward edge), the ConfigMap \<open>c\<close> gains the
  Service as a dependent (reverse edge), the Pod \<open>b\<close> is not selected, and the unresolved
  reference adds nothing. The Service itself gains no entry for the ConfigMap: the
  dependency is recorded in the reverse direction only.
\<close>

theorem updateRelationships_directions_witness:
  "0 < length (nodes (buildGlobalMaps serviceScenario))
   \<and> validPtrs (globalMapByUID (buildGlobalMaps serviceScenario)) (nodes (buildGlobalMaps serviceScenario))
   \<and> validPtrs (globalMapByKey (buildGlobalMaps serviceScenario)) (nodes (buildGlobalMaps serviceScenario))
   \<and> set [''Settings'']
       \<subseteq> labels (updateRelationships ascending (globalMapByUID (buildGlobalMaps serviceScenario))
                   (globalMapByKey (buildGlobalMaps serviceScenario)) 0 serviceRelationships
                   (nodes (buildGlobalMaps serviceScenario)) ! 3)
            (UID (nodes (buildGlobalMaps serviceScenario) ! 0))
   \<and> set [''Service'']
       \<subseteq> labels (updateRelationships ascending (globalMapByUID (buildGlobalMaps serviceScenario))
                   (globalMapByKey (buildGlobalMaps serviceScenario)) 0 serviceRelationships
                   (nodes (buildGlobalMaps serviceScenario)) ! 0)
            (UID (nodes (buildGlobalMaps serviceScenario) ! 1))
   \<and> labels (updateRelationships ascending (globalMapByUID (buildGlobalMaps serviceScenario))
                 (globalMapByKey (buildGlobalMaps serviceScenario)) 0 serviceRelationships
                 (nodes (buildGlobalMaps serviceScenario)) ! 0) ''c''
       = {}
   \<and> map (\<lambda>n. (UID n, Dependents n))
         (updateRelationships ascending (globalMapByUID (buildGlobalMaps serviceScenario))
            (globalMapByKey (buildGlobalMaps serviceScenario)) 0 serviceRelationships
            (nodes (buildGlobalMaps serviceScenario)))
       = [(''s'', [(''w'', [''Service''])]), (''w'', []), (''b'', []), (''c'', [(''s'', [''Settings''])])]"
proof -
  have h1: "0 < length (nodes (buildGlobalMaps serviceScenario))"
    by code_simp
  have h2: "validPtrs (globalMapByUID (buildGlobalMaps serviceScenario)) (nodes (buildGlobalMaps serviceScenario))"
    by code_simp
  have h3: "validPtrs (globalMapByKey (buildGlobalMaps serviceScenario)) (nodes (buildGlobalMaps serviceScenario))"
    by code_simp
  note inst = updateRelationships_directions [where it = ascending and rmap = serviceRelationships, OF h1 h2 h3]
  have c: "(''c'', [''Settings'']) \<in> set (DependenciesByUID serviceRelationships)"
    by (simp add: serviceRelationships_def)
  have c3: "map_of (globalMapByUID (buildGlobalMaps serviceScenario)) ''c'' = Some 3"
    by code_simp
  note rev = inst [THEN conjunct2, THEN conjunct1, THEN bspec, OF c, unfolded prod.case, rule_format, OF c3]
  have s: "(ObjectLabelSelector_Key webSelector, [''Service'']) \<in> set (DependentsByLabelSelector serviceRelationships)"
    by (simp add: serviceRelationships_def)
  have ols: "map_of (ObjectLabelSelectors serviceRelationships) (ObjectLabelSelector_Key webSelector) = Some webSelector"
    by (simp add: serviceRelationships_def)
  have w: "1 \<in> snd ` set (globalMapByUID (buildGlobalMaps serviceScenario))"
    by code_simp
  have sel: "selects webSelector (nodes (buildGlobalMaps serviceScenario) ! 1)"
    by code_simp
  note fwd = inst [THEN conjunct2, THEN conjunct2, THEN conjunct2, THEN conjunct2, THEN conjunct2,
      THEN conjunct1, THEN bspec, OF s, unfolded prod.case, rule_format, OF ols w sel]
  have idx: "globalMapByUID (buildGlobalMaps serviceScenario) = [(''s'', 0), (''w'', 1), (''b'', 2), (''c'', 3)]"
    by code_simp
  have s0: "\<not> selects webSelector (nodes (buildGlobalMaps serviceScenario) ! 0)" by code_simp
  have s2: "\<not> selects webSelector (nodes (buildGlobalMaps serviceScenario) ! 2)" by code_simp
  have s3: "\<not> selects webSelector (nodes (buildGlobalMaps serviceScenario) ! 3)" by code_simp
  have "(n, r) \<in> resolvedDependents (nodes (buildGlobalMaps serviceScenario))
     (globalMapByUID (buildGlobalMaps serviceScenario)) (globalMapByKey (buildGlobalMaps serviceScenario))
     serviceRelationships \<longleftrightarrow> n = 1 \<and> r = ''Service''" for n r
    unfolding resolvedDependents_def resolvedDeclarations_iff idx
    using s0 sel s2 s3
    by (auto simp: serviceRelationships_def newRelationshipMap_def)
  then have dependents: "resolvedDependents (nodes (buildGlobalMaps serviceScenario))
     (globalMapByUID (buildGlobalMaps serviceScenario)) (globalMapByKey (buildGlobalMaps serviceScenario))
     serviceRelationships = {(1, ''Service'')}"
    by auto
  have before: "labels (nodes (buildGlobalMaps serviceScenario) ! 0) ''c'' = {}"
    by code_simp
  have u0: "UID (nodes (buildGlobalMaps serviceScenario) ! 0) = ''s''" by code_simp
  have u1: "UID (nodes (buildGlobalMaps serviceScenario) ! Suc 0) = ''w''" by code_simp
  note exact = inst [THEN conjunct2, THEN conjunct2, THEN conjunct2, THEN conjunct2, THEN conjunct2,
      THEN conjunct2, THEN conjunct1, rule_format, OF h1, of "''c''"]
  have only: "labels (updateRelationships ascending (globalMapByUID (buildGlobalMaps serviceScenario))
                 (globalMapByKey (buildGlobalMaps serviceScenario)) 0 serviceRelationships
                 (nodes (buildGlobalMaps serviceScenario)) ! 0) ''c''
       = {}"
    unfolding exact dependents before u0 by (simp add: u1)
  have all: "map (\<lambda>n. (UID n, Dependents n))
         (updateRelationships ascending (globalMapByUID (buildGlobalMaps serviceScenario))
            (globalMapByKey (buildGlobalMaps serviceScenario)) 0 serviceRelationships
            (nodes (buildGlobalMaps serviceScenario)))
       = [(''s'', [(''w'', [''Service''])]), (''w'', []), (''b'', []), (''c'', [(''s'', [''Settings''])])]"
    by code_simp
  from h1 h2 h3 rev fwd only all show ?thesis by (intro conjI)
qed

section \<open>Owner references\<close>





lemma ownerReferenceEdges_iff:
  "(q, u, r) \<in> ownerReferenceEdges sk byUID node ref \<longleftrightarrow>
     map_of byUID (RefUID ref) = Some q \<and> u = UID (sk ! node)
       \<and> (r = RelationshipOwnerRef \<or> (Controller ref = Some True \<and> r = RelationshipControllerRef))"
  by (auto simp: ownerReferenceEdges_def split: option.splits)


lemma labels_eq_edges: "q < length h \<Longrightarrow> labels (h ! q) u = {r. (q, u, r) \<in> edges h}"
  by (simp add: edges_def)

lemma owner_pass_grows:
  "grows (map newNode objects)
     (ownerEdges (map newNode objects) (globalMapByUID (buildGlobalMaps objects)))
     (populateOwnerReferences it (globalMapByUID (buildGlobalMaps objects)) (nodes (buildGlobalMaps objects)))"
  using grows_populateOwnerReferences [OF validPtrs_buildGlobalMaps(1), of objects it]
  by (simp add: skeleton_newNodes nodes_buildGlobalMaps)

lemma owner_pass_labels:
  assumes "q < length objects"
  shows "labels (populateOwnerReferences it (globalMapByUID (buildGlobalMaps objects))
                   (nodes (buildGlobalMaps objects)) ! q) u
           = {r. (q, u, r) \<in> ownerEdges (map newNode objects) (globalMapByUID (buildGlobalMaps objects))}"
proof -
  have "length (populateOwnerReferences it (globalMapByUID (buildGlobalMaps objects))
                   (nodes (buildGlobalMaps objects))) = length objects"
    using grows_length [OF owner_pass_grows, of it objects] by simp
  with assms show ?thesis
    using owner_pass_grows [of objects it] by (simp add: labels_eq_edges grows_def edges_newNodes)
qed

lemma final_labels_superset:
  assumes "q < length objects"
    "(q, u, r) \<in> ownerEdges (map newNode objects) (globalMapByUID (buildGlobalMaps objects))"
  shows "r \<in> labels (nodes (resolveGraph it getRelationships objects) ! q) u"
  using resolveGraph_ownerEdges [of objects it getRelationships] assms(2)
  by (intro labels_from_edges) blast

text \<open>The owner references that the pass of lines 306-316 reads for the identifier \<open>u\<close> and
  resolves to the node \<open>j\<close>: those of an indexed object with identifier \<open>u\<close> whose
  referenced identifier \<open>globalMapByUID\<close> maps to \<open>j\<close>.\<close>

definition ownerReferencesTo :: "'c Unstructured list \<Rightarrow> UID \<Rightarrow> nat \<Rightarrow> OwnerReference set" where
  "ownerReferencesTo objects u j =
     {ref. \<exists>q \<in> snd ` set (globalMapByUID (buildGlobalMaps objects)).
        GetUID (objects ! q) = u \<and> ref \<in> set (GetOwnerReferences (objects ! q))
          \<and> map_of (globalMapByUID (buildGlobalMaps objects)) (RefUID ref) = Some j}"

text \<open>The labels that lines 310-313 record for a set of resolved owner references.\<close>

definition ownerLabels :: "OwnerReference set \<Rightarrow> Relationship set" where
  "ownerLabels refs =
     (if refs = {} then {}
      else insert RelationshipOwnerRef
             (if \<exists>ref \<in> refs. Controller ref = Some True then {RelationshipControllerRef} else {}))"

text \<open>The labels that the extractors declare for the entry of the node \<open>j\<close> for the
  identifier \<open>u\<close>.\<close>

definition extractedLabels :: "'c extractors \<Rightarrow> 'c Unstructured list \<Rightarrow> nat \<Rightarrow> UID \<Rightarrow> Relationship set" where
  "extractedLabels getRelationships objects j u =
     {r. (j, u, r) \<in> extractedEdges (map newNode objects) getRelationships
            (globalMapByUID (buildGlobalMaps objects)) (globalMapByKey (buildGlobalMaps objects))}"

lemma ownerLabels_iff:
  "r \<in> ownerLabels refs \<longleftrightarrow>
     (\<exists>ref \<in> refs. r = RelationshipOwnerRef \<or> (Controller ref = Some True \<and> r = RelationshipControllerRef))"
  by (auto simp: ownerLabels_def)

lemma ownerEdges_references:
  "(j, u, r) \<in> ownerEdges (map newNode objects) (globalMapByUID (buildGlobalMaps objects))
     \<longleftrightarrow> r \<in> ownerLabels (ownerReferencesTo objects u j)"
    (is "?L \<longleftrightarrow> ?R")
proof
  assume ?L
  then obtain uid node ref where e: "(uid, node) \<in> set (globalMapByUID (buildGlobalMaps objects))"
      and ref: "ref \<in> set (OwnerReferences (map newNode objects ! node))"
      and m: "(j, u, r) \<in> ownerReferenceEdges (map newNode objects) (globalMapByUID (buildGlobalMaps objects)) node ref"
    by (auto simp: ownerEdges_def)
  from e have node: "node < length objects"
    using validPtrs_entry [OF validPtrs_buildGlobalMaps(1)] by fastforce
  from e have ix: "node \<in> snd ` set (globalMapByUID (buildGlobalMaps objects))" by force
  from m have u: "u = UID (map newNode objects ! node)"
    and to: "map_of (globalMapByUID (buildGlobalMaps objects)) (RefUID ref) = Some j"
    and r: "r = RelationshipOwnerRef \<or> (Controller ref = Some True \<and> r = RelationshipControllerRef)"
    by (simp_all add: ownerReferenceEdges_iff)
  from u node have "GetUID (objects ! node) = u" by (simp add: newNode_def)
  moreover from ref node have "ref \<in> set (GetOwnerReferences (objects ! node))" by (simp add: newNode_def)
  ultimately have "ref \<in> ownerReferencesTo objects u j"
    using ix to unfolding ownerReferencesTo_def by blast
  with r show ?R unfolding ownerLabels_iff by blast
next
  assume ?R
  then obtain ref where ref: "ref \<in> ownerReferencesTo objects u j"
      and r: "r = RelationshipOwnerRef \<or> (Controller ref = Some True \<and> r = RelationshipControllerRef)"
    unfolding ownerLabels_iff by blast
  from ref obtain q where q: "q \<in> snd ` set (globalMapByUID (buildGlobalMaps objects))"
      "GetUID (objects ! q) = u" "ref \<in> set (GetOwnerReferences (objects ! q))"
      "map_of (globalMapByUID (buildGlobalMaps objects)) (RefUID ref) = Some j"
    unfolding ownerReferencesTo_def by blast
  from q(1) obtain uid where e: "(uid, q) \<in> set (globalMapByUID (buildGlobalMaps objects))" by force
  then have len: "q < length objects"
    using validPtrs_entry [OF validPtrs_buildGlobalMaps(1)] by fastforce
  have "(j, u, r) \<in> ownerReferenceEdges (map newNode objects) (globalMapByUID (buildGlobalMaps objects)) q ref"
    using q(2,4) r len by (simp add: ownerReferenceEdges_iff newNode_def)
  moreover have "ref \<in> set (OwnerReferences (map newNode objects ! q))"
    using q(3) len by (simp add: newNode_def)
  ultimately have "(j, u, r) \<in> (\<Union>ref \<in> set (OwnerReferences (map newNode objects ! q)).
      ownerReferenceEdges (map newNode objects) (globalMapByUID (buildGlobalMaps objects)) q ref)"
    by blast
  with e show ?L
    unfolding ownerEdges_def by (intro UN_I [where a = "(uid, q)"]) simp_all
qed

lemma owner_pass_ownerLabels:
  assumes "j < length objects"
  shows "labels (populateOwnerReferences it (globalMapByUID (buildGlobalMaps objects))
                   (nodes (buildGlobalMaps objects)) ! j) u
           = ownerLabels (ownerReferencesTo objects u j)"
  unfolding owner_pass_labels [OF assms] by (rule set_eqI) (simp only: mem_Collect_eq ownerEdges_references)

lemma final_labels_pure:
  assumes "pureExtractors getRelationships" "j < length objects"
  shows "labels (nodes (resolveGraph it getRelationships objects) ! j) u
           = ownerLabels (ownerReferencesTo objects u j) \<union> extractedLabels getRelationships objects j u"
proof -
  have e: "edges (nodes (resolveGraph it getRelationships objects))
      = ownerEdges (map newNode objects) (globalMapByUID (buildGlobalMaps objects))
        \<union> extractedEdges (map newNode objects) getRelationships
            (globalMapByUID (buildGlobalMaps objects)) (globalMapByKey (buildGlobalMaps objects))"
    using resolveGraph_grows_pure [OF assms(1), of objects it] by (simp add: grows_def edges_newNodes)
  have len: "j < length (nodes (resolveGraph it getRelationships objects))"
    using assms(2) by (simp add: resolveGraph_length)
  show ?thesis
    unfolding labels_eq_edges [OF len] e extractedLabels_def
    by (rule set_eqI) (simp only: mem_Collect_eq Un_iff ownerEdges_references)
qed

text \<open>
  C3 (as amended). Let \<open>A = objects[i]\<close> be indexed (\<open>globalMapByUID\<close> has an entry for its
  node) and let \<open>B = objects[j]\<close> be found under its own identifier.
  \<^item> If an owner reference of \<open>A\<close> names the identifier of \<open>B\<close>, then after resolution the
    \<open>Dependents\<close> entry of \<open>B\<close> for \<open>A\<close> contains "OwnerRef", and also "ControllerRef" when
    that reference has controller=true.
  \<^item> With extractors that are pure, the entry after resolution holds exactly the labels of
    the owner references read for the identifier of \<open>A\<close> that resolve to the node of \<open>B\<close>
    (\<open>ownerLabels\<close>: "OwnerRef" when there is one, "ControllerRef" when one of them has
    controller=true) and the labels that the extractors declare for this entry. So it is
    only "OwnerRef" when no such reference has controller=true and the extractors declare
    no other label for the entry.
  \<^item> After the owner-reference pass (lines 306-316) the entry holds exactly the labels of
    these owner references, and the later pass over the extractors only adds labels.
  \<^item> An owner reference whose identifier is not in the index leaves the store unchanged.
\<close>

theorem owner_reference_labels:
  fixes it :: iteration and getRelationships :: "'c extractors" and objects i j
  defines "byUID \<equiv> globalMapByUID (buildGlobalMaps objects)"
  defines "owned \<equiv> populateOwnerReferences it byUID (nodes (buildGlobalMaps objects))"
    and "final \<equiv> nodes (resolveGraph it getRelationships objects)"
    and "toB \<equiv> ownerReferencesTo objects (GetUID (objects ! i)) j"
    and "extracted \<equiv> extractedLabels getRelationships objects j (GetUID (objects ! i))"
  assumes "i \<in> snd ` set byUID" and "map_of byUID (GetUID (objects ! j)) = Some j"
  shows
    "(\<forall>ref \<in> set (GetOwnerReferences (objects ! i)). RefUID ref = GetUID (objects ! j) \<longrightarrow>
        RelationshipOwnerRef \<in> labels (final ! j) (GetUID (objects ! i))
        \<and> (Controller ref = Some True \<longrightarrow>
              RelationshipControllerRef \<in> labels (final ! j) (GetUID (objects ! i))))
   \<and> (pureExtractors getRelationships \<longrightarrow>
        labels (final ! j) (GetUID (objects ! i)) = ownerLabels toB \<union> extracted)
   \<and> (pureExtractors getRelationships \<and> toB \<noteq> {} \<and> (\<forall>ref \<in> toB. Controller ref \<noteq> Some True)
        \<and> extracted \<subseteq> {RelationshipOwnerRef} \<longrightarrow>
        labels (final ! j) (GetUID (objects ! i)) = {RelationshipOwnerRef})
   \<and> labels (owned ! j) (GetUID (objects ! i)) = ownerLabels toB
   \<and> labels (owned ! j) (GetUID (objects ! i)) \<subseteq> labels (final ! j) (GetUID (objects ! i))
   \<and> (\<forall>node (h :: 'c Node list) ref.
        map_of byUID (RefUID ref) = None \<longrightarrow> addOwnerReference byUID node h ref = h)"
proof -
  note A = assms(6) and B = assms(7)
  have j: "j < length objects"
    using byUID_buildGlobalMaps_origin [OF B [unfolded byUID_def]] by simp
  have named: "ref \<in> toB"
    if "ref \<in> set (GetOwnerReferences (objects ! i))" "RefUID ref = GetUID (objects ! j)" for ref
    unfolding toB_def ownerReferencesTo_def using that A B by (auto simp: byUID_def)
  have final: "r \<in> labels (final ! j) (GetUID (objects ! i))" if "r \<in> ownerLabels toB" for r
  proof -
    from that have "(j, GetUID (objects ! i), r)
        \<in> ownerEdges (map newNode objects) (globalMapByUID (buildGlobalMaps objects))"
      unfolding toB_def by (simp only: ownerEdges_references)
    with j show ?thesis unfolding final_def by (rule final_labels_superset)
  qed
  have 1: "RelationshipOwnerRef \<in> labels (final ! j) (GetUID (objects ! i))
        \<and> (Controller ref = Some True \<longrightarrow>
              RelationshipControllerRef \<in> labels (final ! j) (GetUID (objects ! i)))"
    if "ref \<in> set (GetOwnerReferences (objects ! i))" "RefUID ref = GetUID (objects ! j)" for ref
    using named [OF that] by (auto intro!: final simp: ownerLabels_iff)
  have 2: "labels (final ! j) (GetUID (objects ! i)) = ownerLabels toB \<union> extracted"
    if "pureExtractors getRelationships"
    unfolding final_def toB_def extracted_def using that j by (rule final_labels_pure)
  have 3: "labels (final ! j) (GetUID (objects ! i)) = {RelationshipOwnerRef}"
    if "pureExtractors getRelationships" "toB \<noteq> {}" "\<forall>ref \<in> toB. Controller ref \<noteq> Some True"
      "extracted \<subseteq> {RelationshipOwnerRef}"
  proof -
    from that(2,3) have "ownerLabels toB = {RelationshipOwnerRef}"
      by (auto simp: ownerLabels_def)
    with 2 [OF that(1)] that(4) show ?thesis by auto
  qed
  have 4: "labels (owned ! j) (GetUID (objects ! i)) = ownerLabels toB"
    unfolding owned_def byUID_def toB_def using j by (rule owner_pass_ownerLabels)
  have 5: "labels (owned ! j) (GetUID (objects ! i)) \<subseteq> labels (final ! j) (GetUID (objects ! i))"
    unfolding 4 using final by blast
  have 6: "addOwnerReference byUID node h ref = h" if "map_of byUID (RefUID ref) = None"
    for node ref and h :: "'c Node list"
    using that by (simp add: addOwnerReference_def)
  have c1: "\<forall>ref \<in> set (GetOwnerReferences (objects ! i)). RefUID ref = GetUID (objects ! j) \<longrightarrow>
        RelationshipOwnerRef \<in> labels (final ! j) (GetUID (objects ! i))
        \<and> (Controller ref = Some True \<longrightarrow>
              RelationshipControllerRef \<in> labels (final ! j) (GetUID (objects ! i)))"
  proof (intro ballI impI)
    fix ref assume "ref \<in> set (GetOwnerReferences (objects ! i))" "RefUID ref = GetUID (objects ! j)"
    then show "RelationshipOwnerRef \<in> labels (final ! j) (GetUID (objects ! i))
        \<and> (Controller ref = Some True \<longrightarrow>
              RelationshipControllerRef \<in> labels (final ! j) (GetUID (objects ! i)))"
      by (rule 1)
  qed
  have c2: "pureExtractors getRelationships \<longrightarrow>
        labels (final ! j) (GetUID (objects ! i)) = ownerLabels toB \<union> extracted"
    by (intro impI) (rule 2)
  have c3: "pureExtractors getRelationships \<and> toB \<noteq> {} \<and> (\<forall>ref \<in> toB. Controller ref \<noteq> Some True)
        \<and> extracted \<subseteq> {RelationshipOwnerRef} \<longrightarrow>
        labels (final ! j) (GetUID (objects ! i)) = {RelationshipOwnerRef}"
  proof (intro impI, elim conjE)
    assume "pureExtractors getRelationships" "toB \<noteq> {}" "\<forall>ref \<in> toB. Controller ref \<noteq> Some True"
      "extracted \<subseteq> {RelationshipOwnerRef}"
    then show "labels (final ! j) (GetUID (objects ! i)) = {RelationshipOwnerRef}" by (rule 3)
  qed
  have c6: "\<forall>node (h :: 'c Node list) ref.
      map_of byUID (RefUID ref) = None \<longrightarrow> addOwnerReference byUID node h ref = h"
    by (intro allI impI) (rule 6)
  from c1 c2 c3 4 5 c6 show ?thesis by (intro conjI)
qed

text \<open>Two inputs for owner references: an object \<open>x\<close> with an owner reference to \<open>o\<close> without
  a controller flag and one to an identifier that no object has; and a collection in which
  two objects share the identifier \<open>a\<close>, the first of them owned by \<open>b\<close>.\<close>

definition ownedScenario :: "unit Unstructured list" where
  "ownedScenario =
     [exampleObject ''o'' [] ''ConfigMap'' ''owner'' [] [],
      exampleObject ''x'' [] ''ConfigMap'' ''owned'' []
        [\<lparr>RefUID = ''o'', Controller = None\<rparr>, \<lparr>RefUID = ''gone'', Controller = Some True\<rparr>]]"

definition duplicateScenario :: "unit Unstructured list" where
  "duplicateScenario =
     [exampleObject ''a'' ''apps'' ''ReplicaSet'' ''first'' [] [\<lparr>RefUID = ''b'', Controller = Some True\<rparr>],
      exampleObject ''a'' ''apps'' ''ReplicaSet'' ''second'' [] [],
      exampleObject ''b'' ''apps'' ''Deployment'' ''B'' [] []]"

lemma pureExtractors_noRelationships: "pureExtractors noRelationships"
  by (simp add: pureExtractors_def noRelationships_def)

lemma relationshipEdges_newRelationshipMap:
  "relationshipEdges sk byUID byKey node newRelationshipMap = {}"
  by (simp add: relationshipEdges_def newRelationshipMap_def)

lemma extractedLabels_noRelationships: "extractedLabels noRelationships objects j u = {}"
  by (auto simp: extractedLabels_def extractedEdges_def noRelationships_def
      relationshipEdges_newRelationshipMap split: option.splits)

text \<open>
  In the scenario of the specification the entry of \<open>d\<close> for \<open>r\<close> has both labels after
  resolution. In \<open>ownedScenario\<close> the entry of \<open>o\<close> for \<open>x\<close> has only "OwnerRef", and the
  reference to the missing identifier leaves no trace.
\<close>

theorem owner_reference_labels_witness:
  "1 \<in> snd ` set (globalMapByUID (buildGlobalMaps deploymentScenario))
   \<and> map_of (globalMapByUID (buildGlobalMaps deploymentScenario)) (GetUID (deploymentScenario ! 0)) = Some 0
   \<and> 1 \<in> snd ` set (globalMapByUID (buildGlobalMaps ownedScenario))
   \<and> map_of (globalMapByUID (buildGlobalMaps ownedScenario)) (GetUID (ownedScenario ! 0)) = Some 0
   \<and> pureExtractors noRelationships
   \<and> labels (nodes (resolveGraph ascending noRelationships deploymentScenario) ! 0) ''r''
       = {''OwnerRef'', ''ControllerRef''}
   \<and> labels (nodes (resolveGraph ascending noRelationships ownedScenario) ! 0) ''x''
       = {''OwnerRef''}
   \<and> map (\<lambda>n. (UID n, Dependents n)) (nodes (resolveGraph ascending noRelationships ownedScenario))
       = [(''o'', [(''x'', [''OwnerRef''])]), (''x'', [])]"
proof -
  have dA: "1 \<in> snd ` set (globalMapByUID (buildGlobalMaps deploymentScenario))"
    by code_simp
  have dB: "map_of (globalMapByUID (buildGlobalMaps deploymentScenario)) (GetUID (deploymentScenario ! 0)) = Some 0"
    by code_simp
  have oA: "1 \<in> snd ` set (globalMapByUID (buildGlobalMaps ownedScenario))"
    by code_simp
  have oB: "map_of (globalMapByUID (buildGlobalMaps ownedScenario)) (GetUID (ownedScenario ! 0)) = Some 0"
    by code_simp
  note pure = pureExtractors_noRelationships
  have ud: "GetUID (deploymentScenario ! 1) = ''r''" by (simp add: deploymentScenario_def exampleObject_def)
  have uo: "GetUID (ownedScenario ! 1) = ''x''" by (simp add: ownedScenario_def exampleObject_def)
  have d_idx: "globalMapByUID (buildGlobalMaps deploymentScenario) = [(''d'', 0), (''r'', 1), (''p'', 2)]"
    by code_simp
  have o_idx: "globalMapByUID (buildGlobalMaps ownedScenario) = [(''o'', 0), (''x'', 1)]"
    by code_simp
  have d_refs: "ownerReferencesTo deploymentScenario ''r'' 0 = {\<lparr>RefUID = ''d'', Controller = Some True\<rparr>}"
    unfolding ownerReferencesTo_def d_idx
    by (auto simp: deploymentScenario_def exampleObject_def)
  have o_refs: "ownerReferencesTo ownedScenario ''x'' 0 = {\<lparr>RefUID = ''o'', Controller = None\<rparr>}"
    unfolding ownerReferencesTo_def o_idx
    by (auto simp: ownedScenario_def exampleObject_def)
  have 1: "labels (nodes (resolveGraph ascending noRelationships deploymentScenario) ! 0) ''r''
       = {''OwnerRef'', ''ControllerRef''}"
    using owner_reference_labels [OF dA dB, of ascending noRelationships,
        THEN conjunct2, THEN conjunct1, THEN mp, OF pure]
    unfolding ud d_refs extractedLabels_noRelationships
    by (simp add: ownerLabels_def RelationshipOwnerRef_def RelationshipControllerRef_def)
  have o_only: "pureExtractors noRelationships
      \<and> ownerReferencesTo ownedScenario (GetUID (ownedScenario ! 1)) 0 \<noteq> {}
      \<and> (\<forall>ref \<in> ownerReferencesTo ownedScenario (GetUID (ownedScenario ! 1)) 0. Controller ref \<noteq> Some True)
      \<and> extractedLabels noRelationships ownedScenario 0 (GetUID (ownedScenario ! 1)) \<subseteq> {RelationshipOwnerRef}"
    unfolding uo o_refs extractedLabels_noRelationships using pure by simp
  have 2: "labels (nodes (resolveGraph ascending noRelationships ownedScenario) ! 0) ''x''
       = {''OwnerRef''}"
    using owner_reference_labels [OF oA oB, of ascending noRelationships,
        THEN conjunct2, THEN conjunct2, THEN conjunct1, THEN mp, OF o_only]
    unfolding uo by (simp add: RelationshipOwnerRef_def)
  have 3: "map (\<lambda>n. (UID n, Dependents n)) (nodes (resolveGraph ascending noRelationships ownedScenario))
       = [(''o'', [(''x'', [''OwnerRef''])]), (''x'', [])]"
    by code_simp
  from dA dB oA oB pure 1 2 3 show ?thesis by (intro conjI)
qed

text \<open>
  The claim as stated fails: the first object of \<open>duplicateScenario\<close> names the identifier
  \<open>b\<close> of the third with controller=true, but the second object has the same identifier
  \<open>a\<close> and replaces the first in the index, so the owner references of the first are never
  read: after resolution the node of \<open>b\<close> has no \<open>Dependents\<close> entry at all.
\<close>

theorem owner_reference_of_replaced_object:
  "GetOwnerReferences (duplicateScenario ! 0) = [\<lparr>RefUID = ''b'', Controller = Some True\<rparr>]
   \<and> GetUID (duplicateScenario ! 2) = ''b''
   \<and> map (\<lambda>(u, n). (u, map_option Dependents n))
         (ResolveDependents ascending noRelationships duplicateScenario ''b'')
       = [(''b'', Some [])]"
proof -
  have "GetOwnerReferences (duplicateScenario ! 0) = [\<lparr>RefUID = ''b'', Controller = Some True\<rparr>]"
    by (simp add: duplicateScenario_def exampleObject_def)
  moreover have "GetUID (duplicateScenario ! 2) = ''b''"
    by (simp add: duplicateScenario_def exampleObject_def)
  moreover have "map (\<lambda>(u, n). (u, map_option Dependents n))
         (ResolveDependents ascending noRelationships duplicateScenario ''b'')
       = [(''b'', Some [])]"
    by code_simp
  ultimately show ?thesis by (intro conjI)
qed

text \<open>
  An extractor can add a label to the entry that an owner reference made. The Pod \<open>x\<close> names
  the ConfigMap \<open>o\<close> as its owner without a controller flag, and the extractor for Pods
  declares a dependency of \<open>x\<close> on the identifier \<open>o\<close>: after resolution the entry of \<open>o\<close>
  for \<open>x\<close> holds "OwnerRef" and the declared label.
\<close>

definition mountScenario :: "unit Unstructured list" where
  "mountScenario =
     [exampleObject ''o'' [] ''ConfigMap'' ''settings'' [] [],
      exampleObject ''x'' [] ''Pod'' ''web'' [] [\<lparr>RefUID = ''o'', Controller = None\<rparr>]]"

definition volumeRelationships :: "unit extractors" where
  "volumeRelationships k node =
     (if k = Pod then Inr (newRelationshipMap\<lparr>DependenciesByUID := [(''o'', [''ConfigMapVolume''])]\<rparr>)
      else Inl ''no relationships'')"

lemma owner_entry_with_extracted_label:
  "GetOwnerReferences (mountScenario ! 1) = [\<lparr>RefUID = ''o'', Controller = None\<rparr>]
   \<and> pureExtractors volumeRelationships
   \<and> map (\<lambda>n. (UID n, Dependents n))
         (populateOwnerReferences ascending (globalMapByUID (buildGlobalMaps mountScenario))
            (nodes (buildGlobalMaps mountScenario)))
       = [(''o'', [(''x'', [''OwnerRef''])]), (''x'', [])]
   \<and> map (\<lambda>n. (UID n, Dependents n)) (nodes (resolveGraph ascending volumeRelationships mountScenario))
       = [(''o'', [(''x'', [''ConfigMapVolume'', ''OwnerRef''])]), (''x'', [])]"
proof -
  have 1: "GetOwnerReferences (mountScenario ! 1) = [\<lparr>RefUID = ''o'', Controller = None\<rparr>]"
    by (simp add: mountScenario_def exampleObject_def)
  have 2: "pureExtractors volumeRelationships"
    by (simp add: pureExtractors_def volumeRelationships_def)
  have 3: "map (\<lambda>n. (UID n, Dependents n))
         (populateOwnerReferences ascending (globalMapByUID (buildGlobalMaps mountScenario))
            (nodes (buildGlobalMaps mountScenario)))
       = [(''o'', [(''x'', [''OwnerRef''])]), (''x'', [])]"
    by code_simp
  have 4: "map (\<lambda>n. (UID n, Dependents n)) (nodes (resolveGraph ascending volumeRelationships mountScenario))
       = [(''o'', [(''x'', [''ConfigMapVolume'', ''OwnerRef''])]), (''x'', [])]"
    by code_simp
  from 1 2 3 4 show ?thesis by (intro conjI)
qed

section \<open>Two objects that own each other\<close>












section \<open>Independence of the iteration order\<close>

text \<open>
  The logical content of a node: all of its fields except the representation of
  \<open>Dependents\<close>, and the adjacency as a map from identifiers to label sets. The logical
  content of a \<open>NodeMap\<close> maps each key to the logical content of its node.
\<close>

definition logicalNode :: "'c Node \<Rightarrow> 'c Node \<times> (UID \<Rightarrow> Relationship set option)" where
  "logicalNode n = (n\<lparr>Dependents := []\<rparr>, \<lambda>u. map_option set (map_of (Dependents n) u))"

definition logicalNodeMap ::
    "(UID \<times> 'c Node option) list \<Rightarrow> UID \<Rightarrow> ('c Node \<times> (UID \<Rightarrow> Relationship set option)) option option" where
  "logicalNodeMap result = (\<lambda>u. map_option (map_option logicalNode) (map_of result u))"

lemma adjacency_from_labels:
  assumes "inhabited h" "q < length h"
  shows "map_option set (map_of (Dependents (h ! q)) u)
           = (if labels (h ! q) u = {} then None else Some (labels (h ! q) u))"
proof (cases "map_of (Dependents (h ! q)) u")
  case None
  then show ?thesis by (simp add: labels_def)
next
  case (Some rs)
  moreover have "h ! q \<in> set h" using assms(2) by simp
  ultimately have "rs \<noteq> []" using assms(1) by (auto simp: inhabited_def)
  then show ?thesis using Some by (simp add: labels_def)
qed

lemma logicalNode_from_edges:
  assumes "skeleton h1 = skeleton h2" "edges h1 = edges h2" "inhabited h1" "inhabited h2" "q < length h1"
  shows "logicalNode (h1 ! q) = logicalNode (h2 ! q)"
proof -
  have len: "length h1 = length h2" using assms(1) by (rule skeleton_length)
  have "(h1 ! q)\<lparr>Dependents := []\<rparr> = (h2 ! q)\<lparr>Dependents := []\<rparr>"
    using skeleton_nth [of q h1] skeleton_nth [of q h2] assms(1,5) len by simp
  moreover have "labels (h1 ! q) u = labels (h2 ! q) u" for u
    using assms(2,5) len by (simp add: labels_eq_edges)
  then have "map_option set (map_of (Dependents (h1 ! q)) u) = map_option set (map_of (Dependents (h2 ! q)) u)" for u
    using assms(3,4,5) len by (simp add: adjacency_from_labels)
  ultimately show ?thesis by (simp add: logicalNode_def)
qed

lemma dependentEdges_from_edges:
  assumes "skeleton h1 = skeleton h2" "edges h1 = edges h2" "inhabited h1" "inhabited h2"
    "validPtrs byUID h1"
  shows "dependentEdges byUID h1 = dependentEdges byUID h2"
proof -
  have len: "length h1 = length h2" using assms(1) by (rule skeleton_length)
  have "fst ` set (Dependents (h1 ! p)) = fst ` set (Dependents (h2 ! p))" if "p < length h1" for p
  proof (rule set_eqI)
    fix u
    show "u \<in> fst ` set (Dependents (h1 ! p)) \<longleftrightarrow> u \<in> fst ` set (Dependents (h2 ! p))"
      using keys_iff_edges [OF assms(3) that, of u] keys_iff_edges [OF assms(4), of p u] that len assms(2)
      by simp
  qed
  then have "dependentsOf byUID h1 u = dependentsOf byUID h2 u" for u
    using validPtrs_lookup [OF assms(5)] by (auto simp: dependentsOf_def split: option.splits)
  then show ?thesis by (simp add: dependentEdges_def)
qed

lemma resolveGraph_store_independent:
  assumes "pureExtractors getRelationships"
  shows "skeleton (nodes (resolveGraph it1 getRelationships objects))
           = skeleton (nodes (resolveGraph it2 getRelationships objects))"
    and "edges (nodes (resolveGraph it1 getRelationships objects))
           = edges (nodes (resolveGraph it2 getRelationships objects))"
  using resolveGraph_grows_pure [OF assms, of objects it1] resolveGraph_grows_pure [OF assms, of objects it2]
  by (simp_all add: grows_def)

text \<open>
  C9. The extractors are functions of the node they are given; they are assumed not to
  read its \<open>Dependents\<close> map (\<open>pureExtractors\<close>: they translate the fields of the object).
  Then two invocations of \<open>ResolveDependents\<close> on the same input and root return logically
  identical \<open>NodeMap\<close>s, whatever the order in which the Go runtime iterates over the maps
  in each invocation: the same keys, and under each key a node with the same fields and the
  same \<open>Dependents\<close> adjacency with the same label sets.
\<close>

theorem ResolveDependents_deterministic:
  assumes "pureExtractors getRelationships"
  shows "logicalNodeMap (ResolveDependents it1 getRelationships objects rootUID)
           = logicalNodeMap (ResolveDependents it2 getRelationships objects rootUID)"
proof (cases "map_of (globalMapByUID (buildGlobalMaps objects)) rootUID")
  case None
  then show ?thesis by (simp add: ResolveDependents_unresolved)
next
  case (Some p)
  define h1 where "h1 = nodes (resolveGraph it1 getRelationships objects)"
  define h2 where "h2 = nodes (resolveGraph it2 getRelationships objects)"
  define byUID where "byUID = globalMapByUID (buildGlobalMaps objects)"
  have sk: "skeleton h1 = skeleton h2" and ed: "edges h1 = edges h2"
    unfolding h1_def h2_def by (rule resolveGraph_store_independent [OF assms])+
  have inh: "inhabited h1" "inhabited h2"
    unfolding h1_def h2_def by (rule resolveGraph_inhabited)+
  have len: "length h1 = length objects"
    unfolding h1_def by (rule resolveGraph_length)
  have valid: "validPtrs byUID h1"
    using validPtrs_buildGlobalMaps(1) [of objects] len by (simp add: validPtrs_def byUID_def)
  have E: "dependentEdges byUID h1 = dependentEdges byUID h2"
    using sk ed inh valid by (rule dependentEdges_from_edges)
  have keys: "fst ` set (ResolveDependents it1 getRelationships objects rootUID)
      = fst ` set (ResolveDependents it2 getRelationships objects rootUID)"
    using E by (simp add: ResolveDependents_keys [OF Some] h1_def h2_def byUID_def)
  show ?thesis
  proof (rule ext)
    fix u
    show "logicalNodeMap (ResolveDependents it1 getRelationships objects rootUID) u
        = logicalNodeMap (ResolveDependents it2 getRelationships objects rootUID) u"
    proof (cases "u \<in> fst ` set (ResolveDependents it1 getRelationships objects rootUID)")
      case True
      from ResolveDependents_node [OF Some True] obtain q
        where q: "q < length objects"
          "map_of (ResolveDependents it1 getRelationships objects rootUID) u = Some (Some (h1 ! q))"
          "map_of byUID u = Some q"
        by (auto simp: h1_def byUID_def)
      from ResolveDependents_node [OF Some True [unfolded keys]] q(3)
      have "map_of (ResolveDependents it2 getRelationships objects rootUID) u = Some (Some (h2 ! q))"
        by (auto simp: h2_def byUID_def)
      moreover have "logicalNode (h1 ! q) = logicalNode (h2 ! q)"
        using sk ed inh q(1) len by (intro logicalNode_from_edges) simp_all
      ultimately show ?thesis using q(2) by (simp add: logicalNodeMap_def)
    next
      case False
      then have "map_of (ResolveDependents it1 getRelationships objects rootUID) u = None"
        by (simp add: map_of_eq_None_iff)
      moreover from False have "map_of (ResolveDependents it2 getRelationships objects rootUID) u = None"
        unfolding keys by (simp add: map_of_eq_None_iff)
      ultimately show ?thesis by (simp add: logicalNodeMap_def)
    qed
  qed
qed

text \<open>A Deployment with two ReplicaSets.\<close>

definition fanScenario :: "unit Unstructured list" where
  "fanScenario =
     [exampleObject ''d'' ''apps'' ''Deployment'' ''D'' [] [],
      exampleObject ''r1'' ''apps'' ''ReplicaSet'' ''R1'' [] [\<lparr>RefUID = ''d'', Controller = Some True\<rparr>],
      exampleObject ''r2'' ''apps'' ''ReplicaSet'' ''R2'' [] [\<lparr>RefUID = ''d'', Controller = Some True\<rparr>]]"

text \<open>
  The two iteration orders give different representations of the result for the root \<open>d\<close>
  (the entries of \<open>Dependents\<close> are stored in a different order) with the same logical
  content.
\<close>

theorem ResolveDependents_deterministic_witness:
  "pureExtractors noRelationships
   \<and> map (\<lambda>(u, n). (u, map_option Dependents n))
         (ResolveDependents ascending noRelationships fanScenario ''d'')
       = [(''d'', Some [(''r1'', [''OwnerRef'', ''ControllerRef'']), (''r2'', [''OwnerRef'', ''ControllerRef''])]),
          (''r1'', Some []), (''r2'', Some [])]
   \<and> map (\<lambda>(u, n). (u, map_option Dependents n))
         (ResolveDependents descending noRelationships fanScenario ''d'')
       = [(''d'', Some [(''r2'', [''OwnerRef'', ''ControllerRef'']), (''r1'', [''OwnerRef'', ''ControllerRef''])]),
          (''r1'', Some []), (''r2'', Some [])]
   \<and> logicalNodeMap (ResolveDependents ascending noRelationships fanScenario ''d'')
       = logicalNodeMap (ResolveDependents descending noRelationships fanScenario ''d'')"
proof -
  have p: "pureExtractors noRelationships"
    by (simp add: pureExtractors_def noRelationships_def)
  have a: "map (\<lambda>(u, n). (u, map_option Dependents n))
         (ResolveDependents ascending noRelationships fanScenario ''d'')
       = [(''d'', Some [(''r1'', [''OwnerRef'', ''ControllerRef'']), (''r2'', [''OwnerRef'', ''ControllerRef''])]),
          (''r1'', Some []), (''r2'', Some [])]"
    by code_simp
  have d: "map (\<lambda>(u, n). (u, map_option Dependents n))
         (ResolveDependents descending noRelationships fanScenario ''d'')
       = [(''d'', Some [(''r2'', [''OwnerRef'', ''ControllerRef'']), (''r1'', [''OwnerRef'', ''ControllerRef''])]),
          (''r1'', Some []), (''r2'', Some [])]"
    by code_simp
  from p a d ResolveDependents_deterministic [OF p, of ascending fanScenario "''d''" descending]
  show ?thesis by (intro conjI)
qed

end
